theory Spec2Isabelle
  imports Main "HOL-Library.Multiset" "HOL-Library.Log_Nat"
begin

section \<open>Data model (types/url.ts)\<close>

text \<open>
  The interfaces \<open>ClickData\<close>, \<open>ShortenedUrl\<close>, \<open>CreateUrlRequest\<close> and
  \<open>GeolocationData\<close>. The two \<open>id\<close> fields are named \<open>click_id\<close> and \<open>url_id\<close>, and the
  request's \<open>originalUrl\<close> is \<open>req_originalUrl\<close>. An optional field is an \<open>option\<close>.

  Timestamps: the source stores \<open>Date.toISOString()\<close> and reads it back with \<open>new Date(s)\<close>,
  which is the identity on valid dates, so a timestamp is the integer number of milliseconds
  since the epoch that \<open>getTime()\<close> returns.

  \<open>validityMinutes\<close> is a \<open>number\<close>: a binary64 value, that is \<open>NaN\<close>, an infinity, or a
  finite value, given as the rational it denotes. The two zeros are one value here: both
  are falsy, and a \<open>Date\<close> makes \<open>+0\<close> of either.
\<close>

datatype number = NaN | PosInfinity | NegInfinity | Finite rat

record ClickData =
  click_id :: string
  timestamp :: int
  source :: string
  location :: string
  userAgent :: "string option"

record ShortenedUrl =
  url_id :: string
  originalUrl :: string
  shortCode :: string
  customCode :: "string option"
  createdAt :: int
  expiresAt :: int
  isExpired :: bool
  clicks :: "ClickData list"
  totalClicks :: nat

record CreateUrlRequest =
  req_originalUrl :: string
  validityMinutes :: "number option"
  customShortCode :: "string option"

record GeolocationData =
  country :: string
  region :: string
  city :: string

text \<open>
  The exceptions \<open>createShortenedUrl\<close> can raise: its three \<open>new Error(...)\<close>, and the
  \<open>RangeError\<close> of \<open>toISOString()\<close> on a date outside the range of \<open>Date\<close>.
\<close>

datatype error = InvalidUrl | InvalidShortCode | ShortCodeTaken | RangeError

section \<open>The service state and its environment\<close>

text \<open>
  \<open>urls\<close> is a JavaScript \<open>Map\<close>: its entries in insertion order, with distinct keys. The
  stored objects are only reached through the map, so a reference to one is its key.
  \<open>Map.set\<close> on a key that is present replaces the value in place, and appends otherwise.
\<close>

type_synonym urlMap = "(string \<times> ShortenedUrl) list"

fun Map_set :: "string \<Rightarrow> ShortenedUrl \<Rightarrow> urlMap \<Rightarrow> urlMap" where
  "Map_set k v [] = [(k, v)]"
| "Map_set k v ((k', v') # m) =
     (if k' = k then (k, v) # m else (k', v') # Map_set k v m)"

definition Map_has :: "string \<Rightarrow> urlMap \<Rightarrow> bool" where
  "Map_has k m = (k \<in> set (map fst m))"

definition Map_delete :: "string \<Rightarrow> urlMap \<Rightarrow> urlMap" where
  "Map_delete k m = filter (\<lambda>p. fst p \<noteq> k) m"

definition Map_values :: "urlMap \<Rightarrow> ShortenedUrl list" where
  "Map_values m = map snd m"

text \<open>
  The service: the map, and what \<open>localStorage\<close> holds under \<open>STORAGE_KEY\<close> (the snapshot of
  the entries that \<open>JSON.stringify\<close> wrote, or nothing).
\<close>

record UrlService =
  urls :: urlMap
  localStorage :: "urlMap option"

definition init :: UrlService where
  "init = \<lparr>urls = [], localStorage = None\<rparr>"

text \<open>
  What one call reads from its surroundings: \<open>clock n\<close> is the value of the \<open>n\<close>-th
  \<open>new Date()\<close> of the call, \<open>freshId\<close> the string
  \<open>Date.now().toString() + Math.random().toString(36).substr(2, 9)\<close>, \<open>random n\<close> the
  \<open>n\<close>-th value of \<open>Math.floor(Math.random() * characters.length)\<close>,
  \<open>navigatorUserAgent\<close> is \<open>navigator.userAgent\<close>, and \<open>setItemOk\<close> says whether
  \<open>localStorage.setItem\<close> succeeds (when it throws, \<open>saveToStorage\<close> catches and logs).
  The logger only records and prints, and is left out.
\<close>

record env =
  clock :: "nat \<Rightarrow> int"
  freshId :: string
  random :: "nat \<Rightarrow> nat"
  navigatorUserAgent :: string
  setItemOk :: bool

definition saveToStorage :: "env \<Rightarrow> UrlService \<Rightarrow> UrlService" where
  "saveToStorage e st = (if setItemOk e then st\<lparr>localStorage := Some (urls st)\<rparr> else st)"

section \<open>Short codes\<close>

definition characters :: string where
  "characters = ''ABCDEFGHIJKLMNOPQRSTUVWXYZabcdefghijklmnopqrstuvwxyz0123456789''"

text \<open>\<open>String.charAt\<close>: the empty string out of range.\<close>

definition charAt :: "string \<Rightarrow> nat \<Rightarrow> string" where
  "charAt s i = (if i < length s then [s ! i] else [])"

text \<open>
  \<open>generateShortCode(length)\<close>: the \<open>for\<close> loop, with the position \<open>pos\<close> in the random
  draws and the \<open>result\<close> built so far.
\<close>

fun generateShortCode_loop :: "(nat \<Rightarrow> nat) \<Rightarrow> nat \<Rightarrow> nat \<Rightarrow> string \<Rightarrow> string" where
  "generateShortCode_loop rnd pos 0 result = result"
| "generateShortCode_loop rnd pos (Suc n) result =
     generateShortCode_loop rnd (Suc pos) n (result @ charAt characters (rnd pos))"

definition generateShortCode :: "(nat \<Rightarrow> nat) \<Rightarrow> nat \<Rightarrow> nat \<Rightarrow> string" where
  "generateShortCode rnd pos len = generateShortCode_loop rnd pos len []"

definition isShortCodeTaken :: "urlMap \<Rightarrow> string \<Rightarrow> bool" where
  "isShortCodeTaken m code = list_ex (\<lambda>u. shortCode u = code) (Map_values m)"

definition maxAttempts :: nat where
  "maxAttempts = 100"

text \<open>
  \<open>generateUniqueShortCode\<close>: the \<open>do ... while\<close> loop. \<open>attempts\<close> is the counter before
  the iteration, \<open>pos\<close> the number of random draws used so far; each call of
  \<open>generateShortCode()\<close> uses six.
\<close>

function generateUniqueShortCode_loop ::
    "urlMap \<Rightarrow> (nat \<Rightarrow> nat) \<Rightarrow> nat \<Rightarrow> nat \<Rightarrow> string" where
  "generateUniqueShortCode_loop m rnd pos attempts =
     (let code = generateShortCode rnd pos 6 in
      if attempts + 1 > maxAttempts then generateShortCode rnd (pos + 6) 8
      else if isShortCodeTaken m code
        then generateUniqueShortCode_loop m rnd (pos + 6) (attempts + 1)
        else code)"
  by pat_completeness auto
termination
  by (relation "measure (\<lambda>(m, rnd, pos, attempts). maxAttempts - attempts)")
     (auto simp: maxAttempts_def)

definition generateUniqueShortCode :: "urlMap \<Rightarrow> (nat \<Rightarrow> nat) \<Rightarrow> string" where
  "generateUniqueShortCode m rnd = generateUniqueShortCode_loop m rnd 0 0"

text \<open>
  \<open>isValidShortCode\<close>: the regular expression \<open>/^[A-Za-z0-9]{1,20}$/\<close>, by character codes.
\<close>

definition isAlnum :: "char \<Rightarrow> bool" where
  "isAlnum c = (let n = (of_char c :: nat) in
     (65 \<le> n \<and> n \<le> 90) \<or> (97 \<le> n \<and> n \<le> 122) \<or> (48 \<le> n \<and> n \<le> 57))"

definition isValidShortCode :: "string \<Rightarrow> bool" where
  "isValidShortCode s = (1 \<le> length s \<and> length s \<le> 20 \<and> list_all isAlnum s)"

section \<open>createShortenedUrl\<close>

subsection \<open>Arithmetic on numbers\<close>

text \<open>
  The result of an arithmetic operation on finite numbers is the exact result rounded to
  the nearest binary64 value, ties to the even significand (IEEE 754, as ECMAScript
  prescribes). \<open>round64 x\<close> does this for a rational \<open>x\<close>: with \<open>2 ^ l \<le> \<bar>x\<bar> < 2 ^ (l + 1)\<close>
  the unit in the last place is \<open>2 ^ e\<close> for \<open>e = l - 52\<close>, and \<open>2 ^ - 1074\<close> for subnormal
  values; \<open>\<bar>x\<bar> / 2 ^ e\<close> is rounded to an integer, and a result of \<open>2 ^ 1024\<close> or more is
  infinite.
\<close>

definition pow2 :: "int \<Rightarrow> rat" where
  "pow2 e = (if 0 \<le> e then of_int (2 ^ nat e) else 1 / of_int (2 ^ nat (- e)))"

text \<open>\<open>floorlog2 x\<close> is \<open>\<lfloor>log\<^sub>2 x\<rfloor>\<close> for a positive \<open>x\<close>, from the bit lengths of its fraction.\<close>

definition floorlog2 :: "rat \<Rightarrow> int" where
  "floorlog2 x =
     (let d = bitlen (fst (quotient_of x)) - bitlen (snd (quotient_of x))
      in if pow2 d \<le> x then d else d - 1)"

definition roundHalfEven :: "rat \<Rightarrow> int" where
  "roundHalfEven x =
     (let f = \<lfloor>x\<rfloor>; r = x - of_int f
      in if r < 1 / 2 then f else if 1 / 2 < r then f + 1 else if even f then f else f + 1)"

definition round64 :: "rat \<Rightarrow> number" where
  "round64 x =
     (if x = 0 then Finite 0
      else let a = \<bar>x\<bar>;
               e = max (floorlog2 a - 52) (- 1074);
               y = of_int (roundHalfEven (a / pow2 e)) * pow2 e
           in if pow2 1024 \<le> y then (if x < 0 then NegInfinity else PosInfinity)
              else Finite (if x < 0 then - y else y))"

text \<open>
  The operators \<open>*\<close> and \<open>+\<close> on numbers: \<open>NaN\<close> is absorbing, zero times an infinity and
  the sum of opposite infinities are \<open>NaN\<close>, an infinity otherwise wins with the sign of
  the result.
\<close>

definition signum :: "number \<Rightarrow> int" where
  "signum x = (case x of NaN \<Rightarrow> 0 | PosInfinity \<Rightarrow> 1 | NegInfinity \<Rightarrow> - 1
                | Finite a \<Rightarrow> if a < 0 then - 1 else if a = 0 then 0 else 1)"

fun js_times :: "number \<Rightarrow> number \<Rightarrow> number" where
  "js_times NaN y = NaN"
| "js_times x NaN = NaN"
| "js_times (Finite a) (Finite b) = round64 (a * b)"
| "js_times x y =
     (if signum x * signum y = 0 then NaN
      else if 0 < signum x * signum y then PosInfinity else NegInfinity)"

fun js_plus :: "number \<Rightarrow> number \<Rightarrow> number" where
  "js_plus NaN y = NaN"
| "js_plus x NaN = NaN"
| "js_plus (Finite a) (Finite b) = round64 (a + b)"
| "js_plus PosInfinity NegInfinity = NaN"
| "js_plus NegInfinity PosInfinity = NaN"
| "js_plus (Finite a) y = y"
| "js_plus x y = x"

subsection \<open>Dates\<close>

text \<open>
  A \<open>Date\<close> is its time value, a whole number of milliseconds, or is invalid (\<open>None\<close>).
  \<open>new Date(t)\<close> for a number \<open>t\<close> is invalid when \<open>t\<close> is not finite or exceeds \<open>8.64e15\<close>
  in absolute value, and holds \<open>t\<close> cut to an integer toward zero otherwise.
  \<open>toISOString()\<close> throws on an invalid date. The date \<open>now\<close> of \<open>new Date()\<close> is valid, and
  \<open>now.getTime()\<close> is its time value as a number.
\<close>

definition toInteger :: "rat \<Rightarrow> int" where
  "toInteger q = (if 0 \<le> q then \<lfloor>q\<rfloor> else \<lceil>q\<rceil>)"

definition newDate :: "number \<Rightarrow> int option" where
  "newDate t =
     (case t of
        Finite q \<Rightarrow> if \<bar>q\<bar> \<le> 8640000000000000 then Some (toInteger q) else None
      | _ \<Rightarrow> None)"

definition getTime :: "int \<Rightarrow> number" where
  "getTime now = Finite (of_int now)"

definition toISOString :: "int option \<Rightarrow> error + int" where
  "toISOString d = (case d of None \<Rightarrow> Inl RangeError | Some t \<Rightarrow> Inr t)"

subsection \<open>The method\<close>

text \<open>
  The block "Determine short code": \<open>if (request.customShortCode)\<close> is false for an absent
  field and for the empty string.
\<close>

definition determineShortCode :: "env \<Rightarrow> urlMap \<Rightarrow> string option \<Rightarrow> error + string" where
  "determineShortCode e m custom =
     (case custom of
        None \<Rightarrow> Inr (generateUniqueShortCode m (random e))
      | Some c \<Rightarrow>
          if c \<noteq> [] then
            (if \<not> isValidShortCode c then Inl InvalidShortCode
             else if isShortCodeTaken m c then Inl ShortCodeTaken
             else Inr c)
          else Inr (generateUniqueShortCode m (random e)))"

text \<open>
  \<open>request.validityMinutes || 30\<close>: 30 for an absent field and for the falsy numbers,
  which are zero and \<open>NaN\<close>.
\<close>

definition validityOrDefault :: "number option \<Rightarrow> number" where
  "validityOrDefault v =
     (case v of
        None \<Rightarrow> Finite 30
      | Some m \<Rightarrow> if m = NaN \<or> m = Finite 0 then Finite 30 else m)"

text \<open>\<open>new Date(now.getTime() + validityMinutes * 60 * 1000)\<close>, the constant \<open>expiresAt\<close>.\<close>

definition expiresAtDate :: "int \<Rightarrow> number \<Rightarrow> int option" where
  "expiresAtDate now validity =
     newDate (js_plus (getTime now) (js_times (js_times validity (Finite 60)) (Finite 1000)))"

text \<open>
  \<open>createShortenedUrl\<close>. \<open>isValidUrl\<close> is \<open>new URL(url)\<close> not throwing, a function of the
  platform, taken as a parameter. The result is the error thrown, or the created object
  and the service after the call.
\<close>

definition createShortenedUrl ::
    "(string \<Rightarrow> bool) \<Rightarrow> env \<Rightarrow> UrlService \<Rightarrow> CreateUrlRequest
      \<Rightarrow> error + (ShortenedUrl \<times> UrlService)" where
  "createShortenedUrl isValidUrl e st request =
     (if \<not> isValidUrl (req_originalUrl request) then Inl InvalidUrl
      else case determineShortCode e (urls st) (customShortCode request) of
        Inl err \<Rightarrow> Inl err
      | Inr code \<Rightarrow>
          let validity = validityOrDefault (validityMinutes request);
              now = clock e 0
          in
          (case toISOString (expiresAtDate now validity) of
             Inl err \<Rightarrow> Inl err
           | Inr expiry \<Rightarrow>
               let shortenedUrl =
                     \<lparr>url_id = freshId e,
                      originalUrl = req_originalUrl request,
                      shortCode = code,
                      customCode = customShortCode request,
                      createdAt = now,
                      expiresAt = expiry,
                      isExpired = False,
                      clicks = [],
                      totalClicks = 0\<rparr>
               in Inr (shortenedUrl,
                       saveToStorage e
                         (st\<lparr>urls := Map_set (url_id shortenedUrl) shortenedUrl (urls st)\<rparr>))))"

section \<open>Lookup, click recording, listing, deletion\<close>

text \<open>
  \<open>getUrlByShortCode\<close>: \<open>find\<close> gives the first entry with the code. The object returned
  is the stored one, given as its key and its value.
\<close>

definition getUrlByShortCode ::
    "env \<Rightarrow> UrlService \<Rightarrow> string \<Rightarrow> (string \<times> ShortenedUrl) option \<times> UrlService" where
  "getUrlByShortCode e st code =
     (case find (\<lambda>p. shortCode (snd p) = code) (urls st) of
        None \<Rightarrow> (None, st)
      | Some (k, u) \<Rightarrow>
          if clock e 0 > expiresAt u
          then (None, saveToStorage e (st\<lparr>urls := Map_set k (u\<lparr>isExpired := True\<rparr>) (urls st)\<rparr>))
          else (Some (k, u), st))"

definition getLocationData :: GeolocationData where
  "getLocationData = \<lparr>country = ''Unknown'', region = ''Unknown'', city = ''Unknown''\<rparr>"

text \<open>
  \<open>recordClickAndRedirect(shortCode, source = 'direct')\<close>: the second \<open>new Date()\<close> of the
  call is the click's timestamp; \<open>newClickData\<close> is the object literal \<open>clickData\<close>.
\<close>

definition newClickData :: "env \<Rightarrow> string option \<Rightarrow> ClickData" where
  "newClickData e src =
     \<lparr>click_id = freshId e,
      timestamp = clock e 1,
      source = (case src of None \<Rightarrow> ''direct'' | Some s \<Rightarrow> s),
      location = country getLocationData,
      userAgent = Some (navigatorUserAgent e)\<rparr>"

definition recordClickAndRedirect ::
    "env \<Rightarrow> UrlService \<Rightarrow> string \<Rightarrow> string option \<Rightarrow> string option \<times> UrlService" where
  "recordClickAndRedirect e st code src =
     (case getUrlByShortCode e st code of
        (None, st') \<Rightarrow> (None, st')
      | (Some (k, u), st') \<Rightarrow>
          let clickData = newClickData e src;
              u1 = u\<lparr>clicks := clicks u @ [clickData]\<rparr>;
              u2 = u1\<lparr>totalClicks := length (clicks u1)\<rparr>
          in (Some (originalUrl u2), saveToStorage e (st'\<lparr>urls := Map_set k u2 (urls st')\<rparr>)))"

text \<open>
  \<open>getAllUrls\<close>: the \<open>forEach\<close> reads the clock once for each entry; \<open>sort\<close> is stable and
  orders a copy of the values by the comparator \<open>b.createdAt - a.createdAt\<close>.
\<close>

fun updateExpired :: "(nat \<Rightarrow> int) \<Rightarrow> nat \<Rightarrow> urlMap \<Rightarrow> urlMap" where
  "updateExpired clk i [] = []"
| "updateExpired clk i ((k, u) # m) =
     (k, if clk i > expiresAt u then u\<lparr>isExpired := True\<rparr> else u) # updateExpired clk (Suc i) m"

definition getAllUrls :: "env \<Rightarrow> UrlService \<Rightarrow> ShortenedUrl list \<times> UrlService" where
  "getAllUrls e st =
     (let st' = saveToStorage e (st\<lparr>urls := updateExpired (clock e) 0 (urls st)\<rparr>)
      in (sort_key (\<lambda>u. - createdAt u) (Map_values (urls st')), st'))"

definition deleteUrl :: "env \<Rightarrow> UrlService \<Rightarrow> string \<Rightarrow> bool \<times> UrlService" where
  "deleteUrl e st ident =
     (if Map_has ident (urls st)
      then (True, saveToStorage e (st\<lparr>urls := Map_delete ident (urls st)\<rparr>))
      else (False, st))"

definition clearAllData :: "UrlService \<Rightarrow> UrlService" where
  "clearAllData st = st\<lparr>urls := [], localStorage := None\<rparr>"


section \<open>Sequences of calls\<close>

text \<open>
  The public methods of the service as one type, and the service after one call
  (a \<open>createShortenedUrl\<close> that throws leaves it as it was).
\<close>

datatype operation =
    Create CreateUrlRequest
  | Lookup string
  | RecordAccess string "string option"
  | ListAll
  | Delete string
  | Clear

definition perform :: "(string \<Rightarrow> bool) \<Rightarrow> env \<Rightarrow> operation \<Rightarrow> UrlService \<Rightarrow> UrlService" where
  "perform isValidUrl e op st =
     (case op of
        Create request \<Rightarrow>
          (case createShortenedUrl isValidUrl e st request of Inl err \<Rightarrow> st | Inr r \<Rightarrow> snd r)
      | Lookup code \<Rightarrow> snd (getUrlByShortCode e st code)
      | RecordAccess code src \<Rightarrow> snd (recordClickAndRedirect e st code src)
      | ListAll \<Rightarrow> snd (getAllUrls e st)
      | Delete ident \<Rightarrow> snd (deleteUrl e st ident)
      | Clear \<Rightarrow> clearAllData st)"

text \<open>
  Successive calls of \<open>recordClickAndRedirect\<close> on one code, each in its own environment
  and with its own \<open>source\<close> argument: the results in call order, and the service after
  the last call.
\<close>

fun recordMany ::
    "UrlService \<Rightarrow> string \<Rightarrow> (env \<times> string option) list \<Rightarrow> string option list \<times> UrlService" where
  "recordMany st code [] = ([], st)"
| "recordMany st code (c # cs) =
     (let r = recordClickAndRedirect (fst c) st code (snd c);
          rest = recordMany (snd r) code cs
      in (fst r # fst rest, snd rest))"

text \<open>
  A run: calls one after the other, each in its own environment, and the service after
  the last.
\<close>

fun run :: "(string \<Rightarrow> bool) \<Rightarrow> UrlService \<Rightarrow> (env \<times> operation) list \<Rightarrow> UrlService" where
  "run isValidUrl st [] = st"
| "run isValidUrl st (c # cs) = run isValidUrl (perform isValidUrl (fst c) (snd c) st) cs"

text \<open>
  The clicks that the calls of a run record for a code, in call order: one for each
  \<open>recordClickAndRedirect\<close> on this code that returns a URL.
\<close>

definition recordedBy :: "env \<Rightarrow> operation \<Rightarrow> UrlService \<Rightarrow> string \<Rightarrow> ClickData list" where
  "recordedBy e op st code =
     (case op of
        RecordAccess code' src \<Rightarrow>
          if code' = code \<and> fst (recordClickAndRedirect e st code' src) \<noteq> None
          then [newClickData e src] else []
      | _ \<Rightarrow> [])"

fun recorded ::
    "(string \<Rightarrow> bool) \<Rightarrow> UrlService \<Rightarrow> string \<Rightarrow> (env \<times> operation) list \<Rightarrow> ClickData list" where
  "recorded isValidUrl st code [] = []"
| "recorded isValidUrl st code (c # cs) =
     recordedBy (fst c) (snd c) st code
       @ recorded isValidUrl (perform isValidUrl (fst c) (snd c) st) code cs"

text \<open>
  A call leaves the mapping under the key \<open>k\<close> in the map when it is not
  \<open>clearAllData\<close>, not \<open>deleteUrl(k)\<close>, and not a \<open>createShortenedUrl\<close> whose id is a key
  already (the ids are meant to be fresh). A run does when each of its calls does.
\<close>

definition keepsEntry :: "env \<Rightarrow> operation \<Rightarrow> UrlService \<Rightarrow> string \<Rightarrow> bool" where
  "keepsEntry e op st k =
     (case op of
        Create request \<Rightarrow> \<not> Map_has (freshId e) (urls st)
      | Delete ident \<Rightarrow> ident \<noteq> k
      | Clear \<Rightarrow> False
      | _ \<Rightarrow> True)"

fun keeps :: "(string \<Rightarrow> bool) \<Rightarrow> UrlService \<Rightarrow> string \<Rightarrow> (env \<times> operation) list \<Rightarrow> bool" where
  "keeps isValidUrl st k [] = True"
| "keeps isValidUrl st k (c # cs) =
     (keepsEntry (fst c) (snd c) st k
      \<and> keeps isValidUrl (perform isValidUrl (fst c) (snd c) st) k cs)"

text \<open>
  The invariant of the click counter: every stored mapping's \<open>totalClicks\<close> is the
  length of its \<open>clicks\<close>.
\<close>

definition clicksConsistent :: "UrlService \<Rightarrow> bool" where
  "clicksConsistent st =
     list_all (\<lambda>p. totalClicks (snd p) = length (clicks (snd p))) (urls st)"

section \<open>Concrete inputs\<close>

text \<open>
  An environment whose clock always reads \<open>t\<close>, a request for one fixed URL, a stored
  mapping without clicks, and a stand-in for the URL parser that rejects one string.
\<close>

definition exampleEnv :: "string \<Rightarrow> int \<Rightarrow> (nat \<Rightarrow> nat) \<Rightarrow> env" where
  "exampleEnv i t rnd =
     \<lparr>clock = (\<lambda>_. t), freshId = i, random = rnd, navigatorUserAgent = ''agent'',
      setItemOk = True\<rparr>"

definition exampleRequest :: "number option \<Rightarrow> string option \<Rightarrow> CreateUrlRequest" where
  "exampleRequest v c =
     \<lparr>req_originalUrl = ''https://example.com/a'', validityMinutes = v, customShortCode = c\<rparr>"

definition exampleUrl :: "string \<Rightarrow> string \<Rightarrow> int \<Rightarrow> int \<Rightarrow> bool \<Rightarrow> ShortenedUrl" where
  "exampleUrl i code created expires flag =
     \<lparr>url_id = i, originalUrl = ''https://example.com/a'', shortCode = code,
      customCode = None, createdAt = created, expiresAt = expires, isExpired = flag,
      clicks = [], totalClicks = 0\<rparr>"

definition exampleService :: "urlMap \<Rightarrow> UrlService" where
  "exampleService m = \<lparr>urls = m, localStorage = Some m\<rparr>"

definition parses :: "string \<Rightarrow> bool" where
  "parses s = (s \<noteq> ''not-a-url'')"

section \<open>Lemmas on the map\<close>


lemma map_of_Map_set: "map_of (Map_set k v m) = (map_of m)(k \<mapsto> v)"
  by (induction m) (auto simp: fun_eq_iff)

lemma Map_set_fresh: "k \<notin> fst ` set m \<Longrightarrow> Map_set k v m = m @ [(k, v)]"
  by (induction m) force+

lemma keys_Map_set_present: "k \<in> fst ` set m \<Longrightarrow> map fst (Map_set k v m) = map fst m"
  by (induction m) force+

lemma keys_Map_set:
  "map fst (Map_set k v m) = (if k \<in> fst ` set m then map fst m else map fst m @ [k])"
  by (simp add: Map_set_fresh keys_Map_set_present)

lemma distinct_Map_set: "distinct (map fst m) \<Longrightarrow> distinct (map fst (Map_set k v m))"
  by (simp add: keys_Map_set)

lemma Map_set_present:
  "distinct (map fst m) \<Longrightarrow> k \<in> set (map fst m)
    \<Longrightarrow> Map_set k v m = map (\<lambda>p. if fst p = k then (k, v) else p) m"
proof (induction m)
  case Nil
  then show ?case by simp
next
  case (Cons p m)
  show ?case
  proof (cases "fst p = k")
    case True
    with Cons.prems have "k \<notin> set (map fst m)" by auto
    then have "map (\<lambda>p. if fst p = k then (k, v) else p) m = m"
      by (induction m) auto
    with True show ?thesis by (cases p) simp
  next
    case False
    with Cons show ?thesis by (cases p) auto
  qed
qed

lemma set_Map_set: "set (Map_set k v m) \<subseteq> insert (k, v) (set m)"
  by (induction m) (auto split: if_splits)

lemma codes_Map_set:
  "set (map shortCode (Map_values (Map_set k v m)))
    \<subseteq> insert (shortCode v) (set (map shortCode (Map_values m)))"
  using set_Map_set [of k v m] by (fastforce simp: Map_values_def)

lemma distinct_codes_Map_set:
  "distinct (map shortCode (Map_values m)) \<Longrightarrow> shortCode v \<notin> set (map shortCode (Map_values m))
    \<Longrightarrow> distinct (map shortCode (Map_values (Map_set k v m)))"
proof (induction m)
  case Nil
  then show ?case by (simp add: Map_values_def)
next
  case (Cons p m)
  obtain k' w where p: "p = (k', w)" by (cases p)
  show ?case
  proof (cases "k' = k")
    case True
    with Cons.prems p show ?thesis by (simp add: Map_values_def)
  next
    case False
    have d: "distinct (map shortCode (Map_values (Map_set k v m)))"
      using Cons by (simp add: Map_values_def)
    have "shortCode w \<noteq> shortCode v" "shortCode w \<notin> set (map shortCode (Map_values m))"
      using Cons.prems p by (auto simp: Map_values_def)
    then have "shortCode w \<notin> set (map shortCode (Map_values (Map_set k v m)))"
      using codes_Map_set [of k v m] by blast
    with d False p show ?thesis by (simp add: Map_values_def)
  qed
qed

lemma isShortCodeTaken_iff:
  "isShortCodeTaken m c \<longleftrightarrow> c \<in> set (map shortCode (Map_values m))"
  by (auto simp: isShortCodeTaken_def list_ex_iff)

lemma isShortCodeTaken_iff_entry:
  "isShortCodeTaken m c \<longleftrightarrow> (\<exists>p \<in> set m. shortCode (snd p) = c)"
  by (auto simp: isShortCodeTaken_def list_ex_iff Map_values_def)

declare generateUniqueShortCode_loop.simps [simp del]

lemma loop_first_free:
  "attempts + k < maxAttempts
    \<Longrightarrow> \<forall>j<k. isShortCodeTaken m (generateShortCode rnd (pos + 6 * j) 6)
    \<Longrightarrow> \<not> isShortCodeTaken m (generateShortCode rnd (pos + 6 * k) 6)
    \<Longrightarrow> generateUniqueShortCode_loop m rnd pos attempts = generateShortCode rnd (pos + 6 * k) 6"
proof (induction k arbitrary: pos attempts)
  case 0
  then show ?case
    by (subst generateUniqueShortCode_loop.simps) (simp add: Let_def)
next
  case (Suc k)
  from Suc.prems(2) have taken0: "isShortCodeTaken m (generateShortCode rnd pos 6)"
    by (metis add.right_neutral mult_zero_right zero_less_Suc)
  have "generateUniqueShortCode_loop m rnd (pos + 6) (attempts + 1)
          = generateShortCode rnd ((pos + 6) + 6 * k) 6"
  proof (rule Suc.IH)
    show "attempts + 1 + k < maxAttempts" using Suc.prems(1) by simp
    show "\<forall>j<k. isShortCodeTaken m (generateShortCode rnd (pos + 6 + 6 * j) 6)"
    proof (intro allI impI)
      fix j assume "j < k"
      then have "isShortCodeTaken m (generateShortCode rnd (pos + 6 * Suc j) 6)"
        using Suc.prems(2) [rule_format, of "Suc j"] by simp
      then show "isShortCodeTaken m (generateShortCode rnd (pos + 6 + 6 * j) 6)"
        by (simp add: add.assoc)
    qed
    show "\<not> isShortCodeTaken m (generateShortCode rnd (pos + 6 + 6 * k) 6)"
      using Suc.prems(3) by (simp add: add.assoc)
  qed
  moreover have "generateUniqueShortCode_loop m rnd pos attempts
      = generateUniqueShortCode_loop m rnd (pos + 6) (attempts + 1)"
    using taken0 Suc.prems(1)
    by (subst generateUniqueShortCode_loop.simps) (simp add: Let_def)
  ultimately show ?case by (simp add: add.assoc)
qed

lemma loop_all_taken:
  "attempts + k = maxAttempts
    \<Longrightarrow> \<forall>j<k. isShortCodeTaken m (generateShortCode rnd (pos + 6 * j) 6)
    \<Longrightarrow> generateUniqueShortCode_loop m rnd pos attempts = generateShortCode rnd (pos + 6 * k + 6) 8"
proof (induction k arbitrary: pos attempts)
  case 0
  then show ?case
    by (subst generateUniqueShortCode_loop.simps) (simp add: Let_def)
next
  case (Suc k)
  from Suc.prems(2) have taken0: "isShortCodeTaken m (generateShortCode rnd pos 6)"
    by (metis add.right_neutral mult_zero_right zero_less_Suc)
  have "generateUniqueShortCode_loop m rnd (pos + 6) (attempts + 1)
          = generateShortCode rnd ((pos + 6) + 6 * k + 6) 8"
  proof (rule Suc.IH)
    show "attempts + 1 + k = maxAttempts" using Suc.prems(1) by simp
    show "\<forall>j<k. isShortCodeTaken m (generateShortCode rnd (pos + 6 + 6 * j) 6)"
    proof (intro allI impI)
      fix j assume "j < k"
      then have "isShortCodeTaken m (generateShortCode rnd (pos + 6 * Suc j) 6)"
        using Suc.prems(2) [rule_format, of "Suc j"] by simp
      then show "isShortCodeTaken m (generateShortCode rnd (pos + 6 + 6 * j) 6)"
        by (simp add: add.assoc)
    qed
  qed
  moreover have "generateUniqueShortCode_loop m rnd pos attempts
      = generateUniqueShortCode_loop m rnd (pos + 6) (attempts + 1)"
    using taken0 Suc.prems(1)
    by (subst generateUniqueShortCode_loop.simps) (simp add: Let_def)
  ultimately show ?case by (simp add: add.assoc)
qed

section \<open>Lemmas on numbers and dates\<close>

lemma pow2_nonneg: "0 \<le> e \<Longrightarrow> pow2 e = 2 ^ nat e"
  by (simp add: pow2_def)

lemma pow2_pos: "0 < pow2 e"
  by (simp add: pow2_def)

lemma pow2_mono: "a \<le> b \<Longrightarrow> pow2 a \<le> pow2 b"
proof -
  assume ab: "a \<le> b"
  have "pow2 e = 2 powi e" for e
    by (simp add: pow2_def power_int_def inverse_eq_divide power_one_over)
  then show ?thesis using ab by (simp add: power_int_increasing)
qed

text \<open>\<open>floorlog2\<close> is the integer part of the binary logarithm.\<close>

lemma pow2_powi: "pow2 e = 2 powi e"
  by (simp add: pow2_def power_int_def inverse_eq_divide power_one_over)

lemma floorlog2_bounds:
  assumes "0 < x"
  shows "pow2 (floorlog2 x) \<le> x \<and> x < pow2 (floorlog2 x + 1)"
proof -
  obtain p q where pq: "quotient_of x = (p, q)" by (cases "quotient_of x")
  then have q: "0 < q" by (rule quotient_of_denom_pos)
  from pq have x: "x = of_int p / of_int q" by (rule quotient_of_div)
  with assms q have p: "0 < p" by (simp add: zero_less_divide_iff)
  define bp where "bp = bitlen p"
  define bq where "bq = bitlen q"
  have bp1: "1 \<le> bp" and bq1: "1 \<le> bq"
    using p q by (simp_all add: bp_def bq_def bitlen_alt_def)
  from bitlen_bounds [OF p] have "2 ^ nat (bp - 1) \<le> p" "p < 2 ^ nat bp"
    by (simp_all add: bp_def)
  then have plo: "pow2 (bp - 1) \<le> of_int p" and phi: "(of_int p :: rat) < pow2 bp"
    using bp1 by (simp_all add: pow2_def del: of_int_power)
  from bitlen_bounds [OF q] have "2 ^ nat (bq - 1) \<le> q" "q < 2 ^ nat bq"
    by (simp_all add: bq_def)
  then have qlo: "pow2 (bq - 1) \<le> of_int q" and qhi: "(of_int q :: rat) < pow2 bq"
    using bq1 by (simp_all add: pow2_def del: of_int_power)
  have qpos: "(0 :: rat) < of_int q" using q by simp
  have ppos: "(0 :: rat) < of_int p" using p by simp
  have A: "x < pow2 (bp - bq + 1)"
  proof -
    have "x < pow2 bp / pow2 (bq - 1)"
      unfolding x using phi qlo ppos by (intro frac_less) (simp_all add: pow2_pos)
    also have "\<dots> = pow2 (bp - bq + 1)"
      by (simp add: pow2_powi power_int_diff [symmetric] algebra_simps)
    finally show ?thesis .
  qed
  have B: "pow2 (bp - bq - 1) < x"
  proof -
    have "pow2 (bp - 1) / pow2 bq < x"
      unfolding x using plo qhi qpos by (intro frac_less2) (simp_all add: pow2_pos)
    moreover have "pow2 (bp - 1) / pow2 bq = pow2 (bp - bq - 1)"
      by (simp add: pow2_powi power_int_diff [symmetric] algebra_simps)
    ultimately show ?thesis by simp
  qed
  have f: "floorlog2 x = (if pow2 (bp - bq) \<le> x then bp - bq else bp - bq - 1)"
    by (simp add: floorlog2_def Let_def pq bp_def bq_def)
  show ?thesis
  proof (cases "pow2 (bp - bq) \<le> x")
    case True
    with A f show ?thesis by simp
  next
    case False
    with B f show ?thesis by simp
  qed
qed

lemma roundHalfEven_int: "roundHalfEven (of_int n) = n"
  by (simp add: roundHalfEven_def)

lemma floorlog2_int:
  assumes "0 < k" and "k < 2 ^ 53"
  shows "floorlog2 (of_int k) \<le> 52"
proof -
  from assms have "bitlen k \<le> 53" by (simp add: bitlen_le_iff_power)
  moreover have "bitlen 1 = 1" by (simp add: bitlen_alt_def)
  ultimately show ?thesis
    by (simp add: floorlog2_def Let_def)
qed

lemma round64_nat:
  assumes "0 < k" and "k < 2 ^ 53"
  shows "round64 (of_int k) = Finite (of_int k)"
    and "round64 (- of_int k) = Finite (- of_int k)"
proof -
  define e where "e = max (floorlog2 (of_int k) - 52) (- 1074)"
  have e: "e \<le> 0" using floorlog2_int [OF assms] by (simp add: e_def)
  have p: "pow2 e = 1 / 2 ^ nat (- e)"
    using e by (cases "e = 0") (simp_all add: pow2_def)
  have q: "(of_int k :: rat) / pow2 e = of_int (k * 2 ^ nat (- e))"
    by (simp add: p)
  have y: "of_int (roundHalfEven (of_int k / pow2 e)) * pow2 e = (of_int k :: rat)"
    by (simp only: q roundHalfEven_int) (simp add: p)
  have "(of_int k :: rat) < 2 ^ 53" using assms(2) by (metis of_int_less_numeral_power_cancel_iff)
  also have "\<dots> \<le> pow2 1024" by (simp add: pow2_def)
  finally have lt: "\<not> pow2 1024 \<le> (of_int k :: rat)" by simp
  have pos: "(of_int k :: rat) > 0" using assms(1) by simp
  show "round64 (of_int k) = Finite (of_int k)"
    using pos lt y by (simp add: round64_def Let_def e_def [symmetric])
  show "round64 (- of_int k) = Finite (- of_int k)"
    using pos lt y by (simp add: round64_def Let_def e_def [symmetric])
qed

lemma round64_int:
  assumes "\<bar>k\<bar> < 2 ^ 53"
  shows "round64 (of_int k) = Finite (of_int k)"
proof -
  consider "k = 0" | "0 < k" | "k < 0" by linarith
  then show ?thesis
  proof cases
    case 1
    then show ?thesis by (simp add: round64_def)
  next
    case 2
    with assms show ?thesis by (intro round64_nat) simp_all
  next
    case 3
    with assms have "round64 (- of_int (- k)) = Finite (- of_int (- k))"
      by (intro round64_nat) simp_all
    then show ?thesis by simp
  qed
qed

lemma toInteger_int: "toInteger (of_int n) = n"
  by (simp add: toInteger_def)

lemma pow2_add: "pow2 (a + b) = pow2 a * pow2 b"
  by (simp add: pow2_powi power_int_add)

lemma pow2_less_cancel: "pow2 a < pow2 b \<Longrightarrow> a < b"
  using pow2_mono [of b a] by (cases "a < b") simp_all

lemma roundHalfEven_ge: "of_int n \<le> x \<Longrightarrow> n \<le> roundHalfEven x"
proof -
  assume "of_int n \<le> x"
  then have "n \<le> \<lfloor>x\<rfloor>" by (simp add: le_floor_iff)
  moreover have "\<lfloor>x\<rfloor> \<le> roundHalfEven x" by (simp add: roundHalfEven_def Let_def)
  ultimately show ?thesis by simp
qed

text \<open>Rounding does not go below a power of two that the absolute value reaches.\<close>

lemma round64_ge_pow2:
  assumes n: "0 \<le> n" and x: "pow2 n \<le> \<bar>x\<bar>"
  shows "round64 x \<noteq> NaN \<and> (\<forall>y. round64 x = Finite y \<longrightarrow> pow2 n \<le> \<bar>y\<bar>)"
proof -
  define a where "a = \<bar>x\<bar>"
  have apos: "0 < a" using x pow2_pos [of n] by (simp add: a_def)
  then have x0: "x \<noteq> 0" by (auto simp: a_def)
  define L where "L = floorlog2 a"
  from floorlog2_bounds [OF apos] have lo: "pow2 L \<le> a" and hi: "a < pow2 (L + 1)"
    by (simp_all add: L_def)
  from x hi have "pow2 n < pow2 (L + 1)" by (simp add: a_def)
  then have nL: "n \<le> L" using pow2_less_cancel by fastforce
  define e where "e = max (L - 52) (- 1074)"
  from n nL have e: "e = L - 52" by (simp add: e_def)
  have pe: "0 < pow2 e" by (rule pow2_pos)
  have "pow2 52 * pow2 e = pow2 L" by (simp add: e pow2_add [symmetric])
  with lo have "pow2 52 * pow2 e \<le> a" by simp
  then have "pow2 52 \<le> a / pow2 e" using pe by (simp add: pos_le_divide_eq)
  then have "(of_int (2 ^ 52) :: rat) \<le> a / pow2 e" by (simp add: pow2_def)
  then have m: "2 ^ 52 \<le> roundHalfEven (a / pow2 e)" by (rule roundHalfEven_ge)
  define y where "y = of_int (roundHalfEven (a / pow2 e)) * pow2 e"
  have "pow2 52 * pow2 e \<le> y"
  proof -
    from m have "(of_int (2 ^ 52) :: rat) \<le> of_int (roundHalfEven (a / pow2 e))"
      by (simp only: of_int_le_iff)
    then have "pow2 52 \<le> of_int (roundHalfEven (a / pow2 e))" by (simp add: pow2_def)
    then show ?thesis unfolding y_def using pe by (simp add: mult_right_mono)
  qed
  then have "pow2 L \<le> y" by (simp add: e pow2_add [symmetric])
  with nL have yn: "pow2 n \<le> y" using pow2_mono [of n L] by simp
  then have ypos: "0 < y" using pow2_pos [of n] by simp
  have r: "round64 x = (if pow2 1024 \<le> y then (if x < 0 then NegInfinity else PosInfinity)
      else Finite (if x < 0 then - y else y))"
    using x0 by (simp add: round64_def Let_def a_def [symmetric] L_def [symmetric]
        e_def [symmetric] y_def [symmetric])
  show ?thesis using yn ypos by (auto simp: r)
qed

text \<open>A multiple of a power of two with a significand below \<open>2 ^ 53\<close> is not rounded.\<close>

lemma round64_exact:
  assumes n: "0 < n" "n < 2 ^ 53" and j: "0 \<le> j" "j \<le> 971"
  shows "round64 (of_int n * pow2 j) = Finite (of_int n * pow2 j)"
    and "round64 (- (of_int n * pow2 j)) = Finite (- (of_int n * pow2 j))"
proof -
  define x :: rat where "x = of_int n * pow2 j"
  have xpos: "0 < x" using n(1) pow2_pos [of j] by (simp add: x_def)
  define L where "L = floorlog2 x"
  from floorlog2_bounds [OF xpos] have lo: "pow2 L \<le> x" by (simp add: L_def)
  have "(of_int n :: rat) < 2 ^ 53" using n(2) by (metis of_int_less_numeral_power_cancel_iff)
  then have "x < pow2 53 * pow2 j" unfolding x_def using pow2_pos [of j]
    by (simp add: pow2_def mult_strict_right_mono)
  then have xhi: "x < pow2 (53 + j)" by (simp add: pow2_add)
  with lo have "pow2 L < pow2 (53 + j)" by simp
  then have Lj: "L < 53 + j" by (rule pow2_less_cancel)
  define e where "e = max (L - 52) (- 1074)"
  have ej: "e \<le> j" using Lj j(1) by (simp add: e_def)
  have pj: "pow2 j = pow2 (j - e) * pow2 e" by (simp add: pow2_add [symmetric])
  have pd: "pow2 (j - e) = of_int (2 ^ nat (j - e))" using ej by (simp add: pow2_def)
  have pe: "pow2 e \<noteq> 0" using pow2_pos [of e] by simp
  have "x / pow2 e = of_int n * pow2 (j - e)"
    unfolding x_def by (subst pj) (simp add: pe)
  also have "\<dots> = of_int (n * 2 ^ nat (j - e))" by (simp add: pd)
  finally have q: "x / pow2 e = of_int (n * 2 ^ nat (j - e))" .
  have y: "of_int (roundHalfEven (x / pow2 e)) * pow2 e = x"
  proof -
    have "of_int (roundHalfEven (x / pow2 e)) * pow2 e = (x / pow2 e) * pow2 e"
      by (simp only: q roundHalfEven_int)
    then show ?thesis using pe by simp
  qed
  have "pow2 (53 + j) \<le> pow2 1024" using j(2) by (intro pow2_mono) simp
  with xhi have lt: "\<not> pow2 1024 \<le> x" by simp
  have ax: "\<bar>x\<bar> = x" "\<bar>- x\<bar> = x" using xpos by simp_all
  show "round64 (of_int n * pow2 j) = Finite (of_int n * pow2 j)"
    unfolding x_def [symmetric]
    using xpos lt y
    by (simp add: round64_def Let_def ax L_def [symmetric] e_def [symmetric])
  show "round64 (- (of_int n * pow2 j)) = Finite (- (of_int n * pow2 j))"
    unfolding x_def [symmetric]
    using xpos lt y
    by (simp add: round64_def Let_def ax L_def [symmetric] e_def [symmetric])
qed


lemma newDate_large:
  assumes "t \<noteq> NaN" and "\<forall>y. t = Finite y \<longrightarrow> pow2 n \<le> \<bar>y\<bar>" and "53 \<le> n"
  shows "newDate t = None"
proof (cases t)
  case (Finite y)
  have "(8640000000000000 :: rat) < pow2 53" by (simp add: pow2_def)
  also have "\<dots> \<le> pow2 n" using assms(3) by (rule pow2_mono)
  also have "\<dots> \<le> \<bar>y\<bar>" using assms(2) Finite by simp
  finally show ?thesis using Finite by (simp add: newDate_def)
qed (use assms(1) in \<open>simp_all add: newDate_def\<close>)

text \<open>
  For an integral number of minutes the expiry is exact whenever it is a valid date, and
  is an invalid date otherwise: the products are multiples of 4 and of 32, so they are
  rounded only when they are too large for the sum to be a valid date.
\<close>

lemma expiresAtDate_integral:
  assumes now: "\<bar>now\<bar> < 2 ^ 53"
  shows "expiresAtDate now (Finite (of_int k))
     = (if \<bar>now + k * 60000\<bar> \<le> 8640000000000000 then Some (now + k * 60000) else None)"
proof (cases "\<bar>k\<bar> * 60000 < 2 ^ 58")
  case True
  have b1: "\<bar>k * 60\<bar> < 2 ^ 53" using True by (simp add: abs_mult)
  have 1: "js_times (Finite (of_int k)) (Finite 60) = Finite (of_int (k * 60))"
    using round64_int [OF b1] by simp
  have p5: "pow2 5 = 32" by (simp add: pow2_def)
  have 2: "js_times (Finite (of_int (k * 60))) (Finite 1000) = Finite (of_int (k * 60000))"
  proof -
    consider "k = 0" | "0 < k" | "k < 0" by linarith
    then have "round64 (of_int (k * 60000)) = Finite (of_int (k * 60000))"
    proof cases
      case 1
      then show ?thesis by (simp add: round64_def)
    next
      case 2
      with True have "0 < k * 1875" "k * 1875 < 2 ^ 53" by simp_all
      from round64_exact(1) [OF this, of 5] show ?thesis by (simp add: p5 mult.commute)
    next
      case 3
      with True have "0 < - k * 1875" "- k * 1875 < 2 ^ 53" by simp_all
      from round64_exact(2) [OF this, of 5] show ?thesis by (simp add: p5 mult.commute)
    qed
    then show ?thesis by (simp add: mult.commute)
  qed
  have 3: "js_plus (getTime now) (Finite (of_int (k * 60000)))
      = round64 (of_int (now + k * 60000))"
    by (simp add: getTime_def)
  have e: "expiresAtDate now (Finite (of_int k)) = newDate (round64 (of_int (now + k * 60000)))"
    by (simp only: expiresAtDate_def 1 2 3)
  show ?thesis
  proof (cases "\<bar>now + k * 60000\<bar> < 2 ^ 53")
    case True
    have "(\<bar>of_int (now + k * 60000) :: rat\<bar> \<le> 8640000000000000)
        \<longleftrightarrow> \<bar>now + k * 60000\<bar> \<le> 8640000000000000"
      by (metis of_int_abs of_int_le_numeral_iff)
    then show ?thesis
      unfolding e round64_int [OF True]
      by (simp add: newDate_def toInteger_int del: of_int_add of_int_mult)
  next
    case False
    then have "(2 :: int) ^ 53 \<le> \<bar>now + k * 60000\<bar>" by simp
    then have "(of_int (2 ^ 53) :: rat) \<le> of_int \<bar>now + k * 60000\<bar>"
      by (simp only: of_int_le_iff)
    then have "pow2 53 \<le> \<bar>of_int (now + k * 60000) :: rat\<bar>"
      by (simp add: pow2_def del: of_int_add of_int_mult)
    from round64_ge_pow2 [OF _ this]
    have "newDate (round64 (of_int (now + k * 60000))) = None"
      by (intro newDate_large [of _ 53]) simp_all
    with False show ?thesis unfolding e by simp
  qed
next
  case False
  then have big: "2 ^ 58 \<le> \<bar>k\<bar> * 60000" by simp
  have rhs: "\<not> \<bar>now + k * 60000\<bar> \<le> 8640000000000000"
    using big now by (simp add: abs_if split: if_splits)
  have "(2 :: int) ^ 48 \<le> \<bar>k * 60\<bar>" using big by (simp add: abs_mult)
  then have "(of_int (2 ^ 48) :: rat) \<le> of_int \<bar>k * 60\<bar>" by (simp only: of_int_le_iff)
  then have "pow2 48 \<le> \<bar>of_int k * 60 :: rat\<bar>" by (simp add: pow2_def abs_mult)
  from round64_ge_pow2 [OF _ this]
  have p1: "round64 (of_int k * 60) \<noteq> NaN"
    "\<And>y. round64 (of_int k * 60) = Finite y \<Longrightarrow> pow2 48 \<le> \<bar>y\<bar>"
    by simp_all
  have l: "newDate (js_plus (getTime now) (js_times (round64 (of_int k * 60)) (Finite 1000)))
      = None"
  proof (cases "round64 (of_int k * 60)")
    case NaN
    with p1(1) show ?thesis by simp
  next
    case PosInfinity
    then show ?thesis by (simp add: signum_def getTime_def newDate_def)
  next
    case NegInfinity
    then show ?thesis by (simp add: signum_def getTime_def newDate_def)
  next
    case (Finite y1)
    from p1(2) [OF Finite] have "pow2 48 * 1000 \<le> \<bar>y1\<bar> * 1000" by simp
    moreover have "pow2 57 \<le> pow2 48 * 1000" by (simp add: pow2_def)
    ultimately have "pow2 57 \<le> \<bar>y1 * 1000\<bar>" by (simp add: abs_mult)
    from round64_ge_pow2 [OF _ this]
    have p2: "round64 (y1 * 1000) \<noteq> NaN"
      "\<And>y. round64 (y1 * 1000) = Finite y \<Longrightarrow> pow2 57 \<le> \<bar>y\<bar>"
      by simp_all
    have "newDate (js_plus (getTime now) (round64 (y1 * 1000))) = None"
    proof (cases "round64 (y1 * 1000)")
      case NaN
      with p2(1) show ?thesis by simp
    next
      case PosInfinity
      then show ?thesis by (simp add: getTime_def newDate_def)
    next
      case NegInfinity
      then show ?thesis by (simp add: getTime_def newDate_def)
    next
      case (Finite y2)
      have n: "\<bar>of_int now :: rat\<bar> < 2 ^ 53"
        using now by (metis of_int_abs of_int_less_numeral_power_cancel_iff)
      have y2: "(2 :: rat) ^ 57 \<le> \<bar>y2\<bar>" using p2(2) [OF Finite] by (simp add: pow2_def)
      have "(2 :: rat) ^ 56 \<le> \<bar>y2\<bar> - \<bar>of_int now\<bar>" using n y2 by simp
      also have "\<dots> \<le> \<bar>of_int now + y2\<bar>" by linarith
      finally have "pow2 56 \<le> \<bar>of_int now + y2\<bar>" by (simp add: pow2_def)
      from round64_ge_pow2 [OF _ this]
      have "newDate (round64 (of_int now + y2)) = None"
        by (intro newDate_large [of _ 56]) simp_all
      with Finite show ?thesis by (simp add: getTime_def)
    qed
    with Finite show ?thesis by simp
  qed
  show ?thesis using l rhs by (simp add: expiresAtDate_def)
qed

section \<open>Lemmas on creation\<close>

lemma urls_saveToStorage: "urls (saveToStorage e st) = urls st"
  by (simp add: saveToStorage_def)

lemma createShortenedUrl_Inr:
  assumes "createShortenedUrl isValidUrl e st request = Inr (u, st')"
  shows "isValidUrl (req_originalUrl request)"
    and "determineShortCode e (urls st) (customShortCode request) = Inr (shortCode u)"
    and "expiresAtDate (clock e 0) (validityOrDefault (validityMinutes request))
          = Some (expiresAt u)"
    and "u = \<lparr>url_id = freshId e, originalUrl = req_originalUrl request,
               shortCode = shortCode u, customCode = customShortCode request,
               createdAt = clock e 0, expiresAt = expiresAt u, isExpired = False,
               clicks = [], totalClicks = 0\<rparr>"
    and "st' = saveToStorage e (st\<lparr>urls := Map_set (freshId e) u (urls st)\<rparr>)"
  using assms
  by (auto simp: createShortenedUrl_def toISOString_def Let_def
        split: if_splits sum.splits option.splits)

lemma createShortenedUrl_ok:
  assumes "isValidUrl (req_originalUrl request)"
    and "determineShortCode e (urls st) (customShortCode request) = Inr code"
    and "expiresAtDate (clock e 0) (validityOrDefault (validityMinutes request))
          = Some expiry"
  shows "\<exists>u st'. createShortenedUrl isValidUrl e st request = Inr (u, st')
           \<and> shortCode u = code \<and> expiresAt u = expiry
           \<and> customCode u = customShortCode request"
  using assms by (simp add: createShortenedUrl_def toISOString_def Let_def)

lemma generateUniqueShortCode_free:
  assumes "\<exists>k<100. \<not> isShortCodeTaken m (generateShortCode rnd (6 * k) 6)"
  shows "\<not> isShortCodeTaken m (generateUniqueShortCode m rnd)"
proof -
  define P where "P k \<longleftrightarrow> \<not> isShortCodeTaken m (generateShortCode rnd (6 * k) 6)" for k
  from assms obtain k0 where k0: "k0 < 100" "P k0" by (auto simp: P_def)
  define k where "k = (LEAST i. P i)"
  have Pk: "P k" unfolding k_def using k0(2) by (rule LeastI)
  have "k \<le> k0" unfolding k_def using k0(2) by (rule Least_le)
  with k0 have lt: "k < 100" by simp
  have before: "\<forall>j<k. \<not> P j" unfolding k_def using not_less_Least by blast
  have "generateUniqueShortCode_loop m rnd 0 0 = generateShortCode rnd (0 + 6 * k) 6"
    by (rule loop_first_free) (use lt before Pk in \<open>auto simp: maxAttempts_def P_def\<close>)
  with Pk show ?thesis by (simp add: generateUniqueShortCode_def P_def)
qed

section \<open>Uniqueness of short codes\<close>

text \<open>
  C1, as the code has it: a create that succeeds with a custom code, or for which one of
  the first hundred six-character draws is free, returns a code that no stored mapping
  holds, and so keeps the stored codes distinct.
\<close>

theorem C1_checked_codes_unique:
  assumes "createShortenedUrl isValidUrl e st request = Inr (u, st')"
    and "(\<exists>c. customShortCode request = Some c \<and> c \<noteq> [])
         \<or> (\<exists>k<100. \<not> isShortCodeTaken (urls st) (generateShortCode (random e) (6 * k) 6))"
  shows "(\<forall>p \<in> set (urls st). shortCode (snd p) \<noteq> shortCode u)
       \<and> (distinct (map shortCode (Map_values (urls st)))
            \<longrightarrow> distinct (map shortCode (Map_values (urls st'))))"
proof -
  note c = createShortenedUrl_Inr [OF assms(1)]
  have free: "\<not> isShortCodeTaken (urls st) (shortCode u)"
  proof (cases "\<exists>c. customShortCode request = Some c \<and> c \<noteq> []")
    case True
    then show ?thesis using c(2)
      by (auto simp: determineShortCode_def split: if_splits)
  next
    case False
    with assms(2)
    have ex: "\<exists>k<100. \<not> isShortCodeTaken (urls st) (generateShortCode (random e) (6 * k) 6)"
      by blast
    from False c(2) have "shortCode u = generateUniqueShortCode (urls st) (random e)"
      by (auto simp: determineShortCode_def split: option.splits if_splits)
    with generateUniqueShortCode_free [OF ex] show ?thesis by simp
  qed
  have after: "urls st' = Map_set (freshId e) u (urls st)"
    by (subst c(5)) (simp add: urls_saveToStorage)
  have a: "\<forall>p \<in> set (urls st). shortCode (snd p) \<noteq> shortCode u"
    using free by (auto simp: isShortCodeTaken_iff_entry)
  have b: "shortCode u \<notin> set (map shortCode (Map_values (urls st)))"
    using free by (simp add: isShortCodeTaken_iff)
  have "distinct (map shortCode (Map_values (urls st')))"
    if "distinct (map shortCode (Map_values (urls st)))"
    unfolding after using that b by (rule distinct_codes_Map_set)
  with a show ?thesis by blast
qed

theorem C1_checked_codes_unique_witness:
  "\<exists>u st'.
     createShortenedUrl parses (exampleEnv ''2'' 0 (\<lambda>n. if n < 6 then 0 else 1))
       (exampleService [(''1'', exampleUrl ''1'' ''AAAAAA'' 0 1800000 False)])
       (exampleRequest None None) = Inr (u, st')
   \<and> shortCode u = ''BBBBBB''
   \<and> distinct (map shortCode (Map_values (urls st')))"
proof -
  let ?e = "exampleEnv ''2'' 0 (\<lambda>n. if n < 6 then 0 else 1)"
  let ?st = "exampleService [(''1'', exampleUrl ''1'' ''AAAAAA'' 0 1800000 False)]"
  let ?r = "exampleRequest None None"
  have "parses (req_originalUrl ?r)"
    by (simp add: parses_def exampleRequest_def)
  moreover have "determineShortCode ?e (urls ?st) (customShortCode ?r) = Inr ''BBBBBB''"
    by code_simp
  moreover have "expiresAtDate (clock ?e 0) (validityOrDefault (validityMinutes ?r))
      = Some 1800000"
    by code_simp
  ultimately obtain u st' where
    r: "createShortenedUrl parses ?e ?st ?r = Inr (u, st')" and code: "shortCode u = ''BBBBBB''"
    using createShortenedUrl_ok by blast
  have free: "\<not> isShortCodeTaken (urls ?st) (generateShortCode (random ?e) (6 * 1) 6)"
    by code_simp
  have d: "distinct (map shortCode (Map_values (urls ?st)))"
    by (simp add: exampleService_def Map_values_def)
  have "(\<exists>c. customShortCode ?r = Some c \<and> c \<noteq> [])
      \<or> (\<exists>k<100. \<not> isShortCodeTaken (urls ?st) (generateShortCode (random ?e) (6 * k) 6))"
    using free by (intro disjI2 exI [of _ "1::nat"]) simp
  from C1_checked_codes_unique [OF r this] d
  have "distinct (map shortCode (Map_values (urls st')))" by blast
  with r code show ?thesis by blast
qed

text \<open>
  C1 as stated fails: with the codes \<open>AAAAAA\<close> and \<open>AAAAAAAA\<close> stored and every random
  draw giving \<open>A\<close>, the hundred checked draws collide and the eight-character draw is
  returned unchecked, so two stored mappings hold \<open>AAAAAAAA\<close>.
\<close>

theorem C1_counterexample:
  "(case createShortenedUrl parses (exampleEnv ''1'' 0 (\<lambda>_. 0)) init
           (exampleRequest None (Some ''AAAAAA'')) of
      Inl _ \<Rightarrow> False
    | Inr (u1, s1) \<Rightarrow>
   (case createShortenedUrl parses (exampleEnv ''2'' 0 (\<lambda>_. 0)) s1
           (exampleRequest None (Some ''AAAAAAAA'')) of
      Inl _ \<Rightarrow> False
    | Inr (u2, s2) \<Rightarrow>
   (case createShortenedUrl parses (exampleEnv ''3'' 0 (\<lambda>_. 0)) s2
           (exampleRequest None None) of
      Inl _ \<Rightarrow> False
    | Inr (u3, s3) \<Rightarrow>
        shortCode u3 = shortCode u2 \<and> url_id u3 \<noteq> url_id u2
        \<and> map (\<lambda>p. (fst p, shortCode (snd p))) (urls s3)
            = [(''1'', ''AAAAAA''), (''2'', ''AAAAAAAA''), (''3'', ''AAAAAAAA'')])))"
  by code_simp

section \<open>Generated codes\<close>

lemma generateShortCode_loop_eq:
  "generateShortCode_loop rnd pos n result
     = result @ concat (map (\<lambda>i. charAt characters (rnd (pos + i))) [0..<n])"
proof (induction n arbitrary: pos result)
  case 0
  then show ?case by simp
next
  case (Suc n)
  have "[0..<Suc n] = 0 # map Suc [0..<n]"
    by (simp add: upt_conv_Cons map_Suc_upt del: upt_Suc)
  then show ?case
    by (simp add: Suc.IH comp_def del: upt_Suc)
qed

lemma length_characters: "length characters = 62"
  by (simp add: characters_def)

lemma generateShortCode_map:
  assumes "\<forall>n. rnd n < 62"
  shows "generateShortCode rnd pos len = map (\<lambda>i. characters ! rnd (pos + i)) [0..<len]"
proof -
  have "charAt characters (rnd n) = [characters ! rnd n]" for n
    using assms by (simp add: charAt_def length_characters)
  then have "concat (map (\<lambda>i. charAt characters (rnd (pos + i))) xs)
      = map (\<lambda>i. characters ! rnd (pos + i)) xs" for xs
    by (induction xs) simp_all
  then show ?thesis
    by (simp add: generateShortCode_def generateShortCode_loop_eq)
qed

lemma alnum_characters: "list_all isAlnum characters"
  by code_simp

lemma distinct_characters: "distinct characters"
  by code_simp

lemma alnum_in_characters:
  "list_all (\<lambda>n. char_of n \<in> set characters) ([48..<58] @ [65..<91] @ [97..<123])"
  by code_simp

lemma set_characters: "set characters = {c. isAlnum c}"
proof
  show "set characters \<subseteq> {c. isAlnum c}"
    using alnum_characters by (auto simp: list_all_iff)
  show "{c. isAlnum c} \<subseteq> set characters"
  proof
    fix c assume "c \<in> {c. isAlnum c}"
    then have "(of_char c :: nat) \<in> {48..<58} \<union> {65..<91} \<union> {97..<123}"
      by (auto simp: isAlnum_def Let_def)
    then have "(of_char c :: nat) \<in> set ([48..<58] @ [65..<91] @ [97..<123])"
      by (simp only: set_append set_upt Un_assoc)
    with alnum_in_characters have "char_of (of_char c :: nat) \<in> set characters"
      unfolding list_all_iff by blast
    then show "c \<in> set characters" by simp
  qed
qed

text \<open>
  C3: \<open>generateUniqueShortCode\<close> returns the first of the hundred six-character draws
  that no stored mapping holds; when all hundred collide it returns the eight-character
  draw that follows (after a 101st six-character draw that is dropped), whatever the
  stored codes are. A draw of length \<open>len\<close> has \<open>len\<close> characters, each the entry of
  \<open>characters\<close> at the random index, and \<open>characters\<close> lists the 62 alphanumeric
  characters once each, so that uniform indices give uniform characters. Without a custom
  code the code of a create is the one \<open>generateUniqueShortCode\<close> returns.
\<close>

theorem C3_generateUniqueShortCode:
  "(\<forall>k<100. (\<forall>j<k. isShortCodeTaken m (generateShortCode rnd (6 * j) 6))
        \<and> \<not> isShortCodeTaken m (generateShortCode rnd (6 * k) 6)
      \<longrightarrow> generateUniqueShortCode m rnd = generateShortCode rnd (6 * k) 6)
   \<and> ((\<forall>j<100. isShortCodeTaken m (generateShortCode rnd (6 * j) 6))
      \<longrightarrow> generateUniqueShortCode m rnd = generateShortCode rnd 606 8)
   \<and> ((\<forall>n. rnd n < 62)
      \<longrightarrow> (\<forall>pos len. length (generateShortCode rnd pos len) = len
            \<and> (\<forall>i<len. generateShortCode rnd pos len ! i = characters ! rnd (pos + i))))
   \<and> length characters = 62 \<and> distinct characters \<and> set characters = {c. isAlnum c}
   \<and> determineShortCode e m None = Inr (generateUniqueShortCode m (random e))"
proof -
  have a: "generateUniqueShortCode m rnd = generateShortCode rnd (6 * k) 6"
    if "k < 100" "\<forall>j<k. isShortCodeTaken m (generateShortCode rnd (6 * j) 6)"
       "\<not> isShortCodeTaken m (generateShortCode rnd (6 * k) 6)" for k
    using loop_first_free [of 0 k m rnd 0] that
    by (simp add: generateUniqueShortCode_def maxAttempts_def)
  have b: "generateUniqueShortCode m rnd = generateShortCode rnd 606 8"
    if "\<forall>j<100. isShortCodeTaken m (generateShortCode rnd (6 * j) 6)"
    using loop_all_taken [of 0 100 m rnd 0] that
    by (simp add: generateUniqueShortCode_def maxAttempts_def)
  have c: "length (generateShortCode rnd pos len) = len
      \<and> (\<forall>i<len. generateShortCode rnd pos len ! i = characters ! rnd (pos + i))"
    if "\<forall>n. rnd n < 62" for pos len
    by (simp add: generateShortCode_map [OF that])
  have d: "determineShortCode e m None = Inr (generateUniqueShortCode m (random e))"
    by (simp add: determineShortCode_def)
  from a b c d length_characters distinct_characters set_characters
  show ?thesis by blast
qed

theorem C3_generateUniqueShortCode_witness:
  "generateUniqueShortCode [(''1'', exampleUrl ''1'' ''AAAAAA'' 0 1800000 False)]
       (\<lambda>n. if n < 6 then 0 else 1) = ''BBBBBB''
   \<and> generateUniqueShortCode [(''1'', exampleUrl ''1'' ''AAAAAA'' 0 1800000 False)] (\<lambda>_. 0)
       = ''AAAAAAAA''
   \<and> length (generateShortCode (\<lambda>_. 0) 0 6) = 6"
proof -
  let ?m = "[(''1'', exampleUrl ''1'' ''AAAAAA'' 0 1800000 False)]"
  let ?r1 = "\<lambda>n::nat. if n < 6 then 0 else (1::nat)"
  let ?r0 = "\<lambda>_::nat. 0::nat"
  have g0: "generateShortCode ?r0 pos 6 = ''AAAAAA''" for pos
    by (simp add: generateShortCode_def eval_nat_numeral charAt_def characters_def)
  have t0: "isShortCodeTaken ?m ''AAAAAA''"
    by (simp add: isShortCodeTaken_def Map_values_def exampleUrl_def)
  have h0: "\<forall>j<100. isShortCodeTaken ?m (generateShortCode ?r0 (6 * j) 6)"
    by (simp only: g0 t0) simp
  have h1: "\<forall>j<1. isShortCodeTaken ?m (generateShortCode ?r1 (6 * j) 6)"
    by code_simp
  have h2: "\<not> isShortCodeTaken ?m (generateShortCode ?r1 (6 * 1) 6)"
    by code_simp
  have v1: "generateShortCode ?r1 (6 * 1) 6 = ''BBBBBB''"
    by code_simp
  have v0: "generateShortCode ?r0 606 8 = ''AAAAAAAA''"
    by code_simp
  have r62: "\<forall>n. ?r0 n < 62" by simp
  from C3_generateUniqueShortCode [of ?m ?r1] h1 h2
  have "generateUniqueShortCode ?m ?r1 = generateShortCode ?r1 (6 * 1) 6"
    by (metis one_less_numeral_iff semiring_norm(76))
  moreover from C3_generateUniqueShortCode [of ?m ?r0] h0
  have "generateUniqueShortCode ?m ?r0 = generateShortCode ?r0 606 8" by blast
  moreover from C3_generateUniqueShortCode [of ?m ?r0] r62
  have "length (generateShortCode ?r0 0 6) = 6" by blast
  ultimately show ?thesis using v0 v1 by simp
qed

section \<open>Expiry\<close>

text \<open>
  C2, as the code has it: a created mapping has \<open>createdAt\<close> the time of the call, and
  its \<open>expiresAt\<close> is the date \<open>new Date(now + v * 60 * 1000)\<close> for the validity \<open>v\<close>,
  which is 30 when \<open>validityMinutes\<close> is absent, zero or \<open>NaN\<close> and is the supplied number
  otherwise. The clock reads less than \<open>2 ^ 53\<close> in absolute value, as the time value of
  every date does. For the default the mapping expires 30 minutes after its creation.
  For every supplied integral \<open>m\<close> other than 0, of any size, it expires \<open>m\<close> minutes
  after its creation exactly. For every supplied finite \<open>q\<close> other than 0 whose products
  and sum are exact, it expires at \<open>createdAt + q\<close> minutes cut to a whole millisecond
  toward zero.
\<close>

theorem C2_expiry:
  assumes "createShortenedUrl isValidUrl e st request = Inr (u, st')"
  shows "createdAt u = clock e 0
       \<and> expiresAtDate (createdAt u) (validityOrDefault (validityMinutes request))
           = Some (expiresAt u)
       \<and> (validityMinutes request = None \<or> validityMinutes request = Some (Finite 0)
            \<or> validityMinutes request = Some NaN
          \<longrightarrow> validityOrDefault (validityMinutes request) = Finite 30
            \<and> (\<bar>clock e 0\<bar> < 2 ^ 53
                \<longrightarrow> expiresAt u = createdAt u + 30 * 60000))
       \<and> (\<forall>m. validityMinutes request = Some (Finite (of_int m)) \<and> m \<noteq> 0
              \<and> \<bar>clock e 0\<bar> < 2 ^ 53
            \<longrightarrow> expiresAt u = createdAt u + m * 60000)
       \<and> (\<forall>q. validityMinutes request = Some (Finite q) \<and> q \<noteq> 0
              \<and> round64 (q * 60) = Finite (q * 60)
              \<and> round64 (q * 60 * 1000) = Finite (q * 60 * 1000)
              \<and> round64 (of_int (clock e 0) + q * 60 * 1000)
                   = Finite (of_int (clock e 0) + q * 60 * 1000)
            \<longrightarrow> expiresAt u = toInteger (of_int (createdAt u) + q * 60000))"
proof -
  note c = createShortenedUrl_Inr [OF assms]
  have a: "createdAt u = clock e 0" by (subst c(4)) simp
  have b: "expiresAtDate (createdAt u) (validityOrDefault (validityMinutes request))
      = Some (expiresAt u)"
    using c(3) a by simp
  have d: "validityOrDefault (validityMinutes request) = Finite 30
        \<and> (\<bar>clock e 0\<bar> < 2 ^ 53 \<longrightarrow> expiresAt u = createdAt u + 30 * 60000)"
    if "validityMinutes request = None \<or> validityMinutes request = Some (Finite 0)
          \<or> validityMinutes request = Some NaN"
  proof -
    from that have v: "validityOrDefault (validityMinutes request) = Finite (of_int 30)"
      by (auto simp: validityOrDefault_def)
    have "expiresAt u = createdAt u + 30 * 60000" if "\<bar>clock e 0\<bar> < 2 ^ 53"
      using expiresAtDate_integral [OF that, of 30] c(3) [unfolded v] a
      by (simp split: if_splits)
    with v show ?thesis by simp
  qed
  have f: "expiresAt u = createdAt u + m * 60000"
    if "validityMinutes request = Some (Finite (of_int m))" "m \<noteq> 0"
       "\<bar>clock e 0\<bar> < 2 ^ 53" for m
  proof -
    from that(1,2) have "validityOrDefault (validityMinutes request) = Finite (of_int m)"
      by (simp add: validityOrDefault_def)
    with expiresAtDate_integral [OF that(3)] c(3) a show ?thesis
      by (simp split: if_splits)
  qed
  have g: "expiresAt u = toInteger (of_int (createdAt u) + q * 60000)"
    if "validityMinutes request = Some (Finite q)" "q \<noteq> 0"
       "round64 (q * 60) = Finite (q * 60)"
       "round64 (q * 60 * 1000) = Finite (q * 60 * 1000)"
       "round64 (of_int (clock e 0) + q * 60 * 1000) = Finite (of_int (clock e 0) + q * 60 * 1000)"
    for q
  proof -
    from that(1,2) have "validityOrDefault (validityMinutes request) = Finite q"
      by (simp add: validityOrDefault_def)
    with c(3) that(3,4,5)
    have "newDate (Finite (of_int (clock e 0) + q * 60 * 1000)) = Some (expiresAt u)"
      by (simp add: expiresAtDate_def getTime_def)
    then show ?thesis
      using a by (simp add: newDate_def mult.commute split: if_splits)
  qed
  from a b d f g show ?thesis by blast
qed

theorem C2_expiry_witness:
  "(\<exists>u st'.
     createShortenedUrl parses (exampleEnv ''1'' 1000 (\<lambda>_. 0)) init
       (exampleRequest (Some (Finite 1)) (Some ''promo1'')) = Inr (u, st')
     \<and> createdAt u = 1000 \<and> expiresAt u = 61000)
   \<and> (\<exists>u st'.
     createShortenedUrl parses (exampleEnv ''1'' 1000 (\<lambda>_. 0)) init
       (exampleRequest None (Some ''promo1'')) = Inr (u, st')
     \<and> createdAt u = 1000 \<and> expiresAt u = 1801000)
   \<and> (\<exists>u st'.
     createShortenedUrl parses (exampleEnv ''1'' 1000 (\<lambda>_. 0)) init
       (exampleRequest (Some (Finite (3 / 2048))) (Some ''promo1'')) = Inr (u, st')
     \<and> createdAt u = 1000 \<and> expiresAt u = 1087)"
proof -
  let ?e = "exampleEnv ''1'' 1000 (\<lambda>_. 0)"
  let ?r = "exampleRequest (Some (Finite 1)) (Some ''promo1'')"
  let ?rd = "exampleRequest None (Some ''promo1'')"
  let ?rq = "exampleRequest (Some (Finite (3 / 2048))) (Some ''promo1'')"
  have url: "parses (req_originalUrl (exampleRequest x (Some ''promo1'')))" for x
    by (simp add: parses_def exampleRequest_def)
  have valid: "isValidShortCode ''promo1''" by code_simp
  have code: "determineShortCode ?e (urls init) (customShortCode (exampleRequest x (Some ''promo1'')))
      = Inr ''promo1''" for x
    using valid
    by (simp add: exampleRequest_def determineShortCode_def isShortCodeTaken_def init_def
          Map_values_def)
  have t: "clock ?e 0 = 1000" by (simp add: exampleEnv_def)
  have "expiresAtDate (clock ?e 0) (validityOrDefault (validityMinutes ?r)) = Some 61000"
    by code_simp
  with url code obtain u st' where
    r: "createShortenedUrl parses ?e init ?r = Inr (u, st')"
    using createShortenedUrl_ok by blast
  have "expiresAtDate (clock ?e 0) (validityOrDefault (validityMinutes ?rd)) = Some 1801000"
    by code_simp
  with url code obtain u0 st0 where
    r0: "createShortenedUrl parses ?e init ?rd = Inr (u0, st0)"
    using createShortenedUrl_ok by blast
  have "expiresAtDate (clock ?e 0) (validityOrDefault (validityMinutes ?rq)) = Some 1087"
    by code_simp
  with url code obtain uq stq where
    rq: "createShortenedUrl parses ?e init ?rq = Inr (uq, stq)"
    using createShortenedUrl_ok by blast
  have m: "validityMinutes ?r = Some (Finite (of_int 1)) \<and> (1::int) \<noteq> 0
      \<and> \<bar>clock ?e 0\<bar> < (2::int) ^ 53"
    by (simp add: exampleRequest_def exampleEnv_def)
  have m0: "validityMinutes ?rd = None \<or> validityMinutes ?rd = Some (Finite 0)
      \<or> validityMinutes ?rd = Some NaN"
    by (simp add: exampleRequest_def)
  have b0: "\<bar>clock ?e 0\<bar> < 2 ^ 53" by (simp add: t)
  have x1: "round64 (3 / 2048 * 60) = Finite (3 / 2048 * 60)" by code_simp
  have x2: "round64 (3 / 2048 * 60 * 1000) = Finite (3 / 2048 * 60 * 1000)" by code_simp
  have x3: "round64 (of_int (clock ?e 0) + 3 / 2048 * 60 * 1000)
      = Finite (of_int (clock ?e 0) + 3 / 2048 * 60 * 1000)"
    unfolding t by code_simp
  have mq: "validityMinutes ?rq = Some (Finite (3 / 2048)) \<and> (3 / 2048 :: rat) \<noteq> 0
      \<and> round64 (3 / 2048 * 60) = Finite (3 / 2048 * 60)
      \<and> round64 (3 / 2048 * 60 * 1000) = Finite (3 / 2048 * 60 * 1000)
      \<and> round64 (of_int (clock ?e 0) + 3 / 2048 * 60 * 1000)
           = Finite (of_int (clock ?e 0) + 3 / 2048 * 60 * 1000)"
    using x1 x2 x3 by (simp add: exampleRequest_def)
  have tq: "toInteger (of_int 1000 + 3 / 2048 * 60000) = 1087" by code_simp
  note c = C2_expiry [OF r]
  note c0 = C2_expiry [OF r0]
  note cq = C2_expiry [OF rq]
  have 1: "createdAt u = 1000 \<and> expiresAt u = 61000"
    using c [THEN conjunct1]
      c [THEN conjunct2, THEN conjunct2, THEN conjunct2, THEN conjunct1, rule_format, OF m] t
    by simp
  have 2: "createdAt u0 = 1000 \<and> expiresAt u0 = 1801000"
    using c0 [THEN conjunct1]
      c0 [THEN conjunct2, THEN conjunct2, THEN conjunct1, THEN mp, OF m0,
        THEN conjunct2, THEN mp, OF b0] t
    by simp
  have 3: "createdAt uq = 1000 \<and> expiresAt uq = 1087"
    using cq [THEN conjunct1]
      cq [THEN conjunct2, THEN conjunct2, THEN conjunct2, THEN conjunct2, rule_format, OF mq]
      t tq
    by simp
  from r 1 r0 2 rq 3 show ?thesis by blast
qed

text \<open>
  C2 as stated fails for falsy and for fractional durations. The durations 0 and \<open>NaN\<close> are falsy:
  \<open>request.validityMinutes || 30\<close> takes them for an absent one, and the mapping expires
  30 minutes after its creation. For the fractional durations \<open>0.0009765625\<close> (1/1024)
  and \<open>0.99999\<close> (the binary64 value nearest to it) the date drops the fraction of a
  millisecond: created at 1000, the mapping expires at 1058 and at 60999, not at
  1058.59375 and 60999.4.
\<close>

theorem C2_counterexample:
  "(case createShortenedUrl parses (exampleEnv ''1'' 1000 (\<lambda>_. 0)) init
           (exampleRequest (Some (Finite 0)) (Some ''promo1'')) of
      Inl _ \<Rightarrow> False
    | Inr (u, s) \<Rightarrow>
        createdAt u = 1000 \<and> expiresAt u = 1801000 \<and> expiresAt u \<noteq> createdAt u + 0 * 60000)
   \<and> (case createShortenedUrl parses (exampleEnv ''1'' 1000 (\<lambda>_. 0)) init
           (exampleRequest (Some NaN) (Some ''promo1'')) of
      Inl _ \<Rightarrow> False
    | Inr (u, s) \<Rightarrow> createdAt u = 1000 \<and> expiresAt u = 1801000)
   \<and> (case createShortenedUrl parses (exampleEnv ''1'' 1000 (\<lambda>_. 0)) init
           (exampleRequest (Some (Finite (1 / 1024))) (Some ''promo1'')) of
      Inl _ \<Rightarrow> False
    | Inr (u, s) \<Rightarrow>
        createdAt u = 1000 \<and> expiresAt u = 1058
        \<and> (of_int (expiresAt u) :: rat) \<noteq> of_int (createdAt u) + (1 / 1024) * 60000)
   \<and> (case createShortenedUrl parses (exampleEnv ''1'' 1000 (\<lambda>_. 0)) init
           (exampleRequest (Some (Finite (9007109182748445 / 9007199254740992)))
              (Some ''promo1'')) of
      Inl _ \<Rightarrow> False
    | Inr (u, s) \<Rightarrow>
        createdAt u = 1000 \<and> expiresAt u = 60999
        \<and> (of_int (expiresAt u) :: rat)
            \<noteq> of_int (createdAt u) + (9007109182748445 / 9007199254740992) * 60000)"
  by code_simp

section \<open>Custom codes\<close>

text \<open>
  C4, as the code has it: for a request with a URL that parses and a custom code that is
  not the empty string, a code outside \<open>^[A-Za-z0-9]{1,20}$\<close> is refused with
  \<open>InvalidShortCode\<close>; a well-formed code that a stored mapping holds, expired or not, is
  refused with \<open>ShortCodeTaken\<close>; and a well-formed code that no stored mapping holds is
  the code of the mapping returned (the call returns one unless the expiry is no date).
\<close>

theorem C4_custom_code:
  assumes "isValidUrl (req_originalUrl request)"
    and "customShortCode request = Some c" and "c \<noteq> []"
  shows "(\<not> isValidShortCode c
            \<longrightarrow> createShortenedUrl isValidUrl e st request = Inl InvalidShortCode)
       \<and> (isValidShortCode c \<and> (\<exists>p \<in> set (urls st). shortCode (snd p) = c)
            \<longrightarrow> createShortenedUrl isValidUrl e st request = Inl ShortCodeTaken)
       \<and> (isValidShortCode c \<and> (\<forall>p \<in> set (urls st). shortCode (snd p) \<noteq> c)
            \<longrightarrow> (if expiresAtDate (clock e 0) (validityOrDefault (validityMinutes request)) \<noteq> None
                 then \<exists>u st'. createShortenedUrl isValidUrl e st request = Inr (u, st')
                        \<and> shortCode u = c
                 else createShortenedUrl isValidUrl e st request = Inl RangeError))"
proof -
  have taken: "isShortCodeTaken (urls st) c \<longleftrightarrow> (\<exists>p \<in> set (urls st). shortCode (snd p) = c)"
    by (rule isShortCodeTaken_iff_entry)
  have 1: "createShortenedUrl isValidUrl e st request = Inl InvalidShortCode"
    if "\<not> isValidShortCode c"
    using assms that by (simp add: createShortenedUrl_def determineShortCode_def)
  have 2: "createShortenedUrl isValidUrl e st request = Inl ShortCodeTaken"
    if "isValidShortCode c" "\<exists>p \<in> set (urls st). shortCode (snd p) = c"
    using assms that taken by (simp add: createShortenedUrl_def determineShortCode_def)
  have 3: "\<exists>u st'. createShortenedUrl isValidUrl e st request = Inr (u, st') \<and> shortCode u = c"
    if "isValidShortCode c" "\<forall>p \<in> set (urls st). shortCode (snd p) \<noteq> c"
       "expiresAtDate (clock e 0) (validityOrDefault (validityMinutes request)) \<noteq> None"
    using assms that taken
    by (auto simp: createShortenedUrl_def determineShortCode_def toISOString_def Let_def)
  have 4: "createShortenedUrl isValidUrl e st request = Inl RangeError"
    if "isValidShortCode c" "\<forall>p \<in> set (urls st). shortCode (snd p) \<noteq> c"
       "\<not> expiresAtDate (clock e 0) (validityOrDefault (validityMinutes request)) \<noteq> None"
    using assms that taken
    by (simp add: createShortenedUrl_def determineShortCode_def toISOString_def Let_def)
  from 1 2 3 4 show ?thesis by presburger
qed

theorem C4_custom_code_witness:
  "createShortenedUrl parses (exampleEnv ''2'' 0 (\<lambda>_. 0))
       (exampleService [(''1'', exampleUrl ''1'' ''promo1'' 0 60000 True)])
       (exampleRequest None (Some ''promo 1'')) = Inl InvalidShortCode
   \<and> createShortenedUrl parses (exampleEnv ''2'' 0 (\<lambda>_. 0))
       (exampleService [(''1'', exampleUrl ''1'' ''promo1'' 0 60000 True)])
       (exampleRequest None (Some ''promo1'')) = Inl ShortCodeTaken
   \<and> (\<exists>u st'. createShortenedUrl parses (exampleEnv ''2'' 0 (\<lambda>_. 0))
       (exampleService [(''1'', exampleUrl ''1'' ''promo1'' 0 60000 True)])
       (exampleRequest None (Some ''promo2'')) = Inr (u, st') \<and> shortCode u = ''promo2'')"
proof -
  let ?e = "exampleEnv ''2'' 0 (\<lambda>_. 0)"
  let ?st = "exampleService [(''1'', exampleUrl ''1'' ''promo1'' 0 60000 True)]"
  have url: "parses (req_originalUrl (exampleRequest None x))" for x
    by (simp add: parses_def exampleRequest_def)
  have cc: "customShortCode (exampleRequest None (Some x)) = Some x" for x
    by (simp add: exampleRequest_def)
  have v1: "\<not> isValidShortCode ''promo 1''" by code_simp
  have v2: "isValidShortCode ''promo1''" by code_simp
  have v3: "isValidShortCode ''promo2''" by code_simp
  have s2: "\<exists>p \<in> set (urls ?st). shortCode (snd p) = ''promo1''"
    by (simp add: exampleService_def exampleUrl_def)
  have s3: "\<forall>p \<in> set (urls ?st). shortCode (snd p) \<noteq> ''promo2''"
    by (simp add: exampleService_def exampleUrl_def)
  have d: "expiresAtDate (clock ?e 0)
      (validityOrDefault (validityMinutes (exampleRequest None (Some ''promo2'')))) \<noteq> None"
    by code_simp
  have "createShortenedUrl parses ?e ?st (exampleRequest None (Some ''promo 1''))
      = Inl InvalidShortCode"
    using C4_custom_code [where isValidUrl = parses and e = ?e and st = ?st
        and request = "exampleRequest None (Some ''promo 1'')" and c = "''promo 1''"]
      url cc v1 by simp
  moreover have "createShortenedUrl parses ?e ?st (exampleRequest None (Some ''promo1''))
      = Inl ShortCodeTaken"
    using C4_custom_code [where isValidUrl = parses and e = ?e and st = ?st
        and request = "exampleRequest None (Some ''promo1'')" and c = "''promo1''"]
      url cc v2 s2 by simp
  moreover have "\<exists>u st'. createShortenedUrl parses ?e ?st (exampleRequest None (Some ''promo2''))
      = Inr (u, st') \<and> shortCode u = ''promo2''"
    using C4_custom_code [where isValidUrl = parses and e = ?e and st = ?st
        and request = "exampleRequest None (Some ''promo2'')" and c = "''promo2''"]
      url cc v3 s3 d by simp
  ultimately show ?thesis by blast
qed

text \<open>
  C4 as stated fails for a supplied empty string, which does not match the pattern and
  yet gets a generated code, and for a URL that does not parse, where the error is
  \<open>InvalidUrl\<close> whatever the custom code.
\<close>

theorem C4_counterexample:
  "\<not> isValidShortCode []
   \<and> (case createShortenedUrl parses (exampleEnv ''1'' 0 (\<lambda>_. 0)) init
            (exampleRequest None (Some [])) of
        Inl _ \<Rightarrow> False
      | Inr (u, s) \<Rightarrow> shortCode u = ''AAAAAA'')
   \<and> \<not> isValidShortCode ''promo 1''
   \<and> createShortenedUrl parses (exampleEnv ''1'' 0 (\<lambda>_. 0)) init
        \<lparr>req_originalUrl = ''not-a-url'', validityMinutes = None,
         customShortCode = Some ''promo 1''\<rparr> = Inl InvalidUrl"
  by code_simp

text \<open>
  C10: a request whose custom code is the empty string never fails with
  \<open>InvalidShortCode\<close> or \<open>ShortCodeTaken\<close>, although the empty string does not match the
  pattern. When its URL parses and its expiry is a date, it returns a mapping whose code
  is the generated one, whose \<open>customCode\<close> is the empty string and which is stored under
  its id, and the same request without a custom code returns the same mapping but for
  \<open>customCode\<close>.
\<close>

theorem C10_empty_custom_code:
  assumes "customShortCode request = Some []"
  shows "\<not> isValidShortCode []
       \<and> createShortenedUrl isValidUrl e st request \<noteq> Inl InvalidShortCode
       \<and> createShortenedUrl isValidUrl e st request \<noteq> Inl ShortCodeTaken
       \<and> (isValidUrl (req_originalUrl request)
           \<and> expiresAtDate (clock e 0) (validityOrDefault (validityMinutes request)) \<noteq> None
          \<longrightarrow> (\<exists>u st'. createShortenedUrl isValidUrl e st request = Inr (u, st')
                 \<and> shortCode u = generateUniqueShortCode (urls st) (random e)
                 \<and> customCode u = Some []
                 \<and> map_of (urls st') (url_id u) = Some u
                 \<and> (\<exists>st''. createShortenedUrl isValidUrl e st
                              (request\<lparr>customShortCode := None\<rparr>)
                            = Inr (u\<lparr>customCode := None\<rparr>, st''))))"
proof -
  have d: "determineShortCode e (urls st) (customShortCode request)
      = Inr (generateUniqueShortCode (urls st) (random e))"
    using assms by (simp add: determineShortCode_def)
  have 1: "\<not> isValidShortCode []" by (simp add: isValidShortCode_def)
  have 2: "createShortenedUrl isValidUrl e st request \<noteq> Inl InvalidShortCode"
    using d by (simp add: createShortenedUrl_def toISOString_def Let_def split: option.splits)
  have 3: "createShortenedUrl isValidUrl e st request \<noteq> Inl ShortCodeTaken"
    using d by (simp add: createShortenedUrl_def toISOString_def Let_def split: option.splits)
  have 4: "\<exists>u st'. createShortenedUrl isValidUrl e st request = Inr (u, st')
                 \<and> shortCode u = generateUniqueShortCode (urls st) (random e)
                 \<and> customCode u = Some []
                 \<and> map_of (urls st') (url_id u) = Some u
                 \<and> (\<exists>st''. createShortenedUrl isValidUrl e st
                              (request\<lparr>customShortCode := None\<rparr>)
                            = Inr (u\<lparr>customCode := None\<rparr>, st''))"
    if "isValidUrl (req_originalUrl request)"
       "expiresAtDate (clock e 0) (validityOrDefault (validityMinutes request)) \<noteq> None"
    using that d assms
    by (auto simp: createShortenedUrl_def toISOString_def Let_def determineShortCode_def
          urls_saveToStorage map_of_Map_set)
  from 1 2 3 4 show ?thesis by blast
qed

theorem C10_empty_custom_code_witness:
  "\<exists>u st'. createShortenedUrl parses (exampleEnv ''1'' 0 (\<lambda>_. 0)) init
               (exampleRequest None (Some [])) = Inr (u, st')
     \<and> shortCode u = ''AAAAAA'' \<and> customCode u = Some []"
proof -
  let ?e = "exampleEnv ''1'' 0 (\<lambda>_. 0)"
  let ?r = "exampleRequest None (Some [])"
  have c: "customShortCode ?r = Some []" by (simp add: exampleRequest_def)
  have "expiresAtDate (clock ?e 0) (validityOrDefault (validityMinutes ?r)) \<noteq> None"
    by code_simp
  then have h: "parses (req_originalUrl ?r)
      \<and> expiresAtDate (clock ?e 0) (validityOrDefault (validityMinutes ?r)) \<noteq> None"
    by (simp add: parses_def exampleRequest_def)
  have g: "generateUniqueShortCode (urls init) (random ?e) = ''AAAAAA''"
    by code_simp
  from C10_empty_custom_code [OF c, of parses ?e init] h g
  show ?thesis by auto
qed

section \<open>Lookup\<close>

lemma find_code_None:
  "find (\<lambda>p. shortCode (snd p) = code) m = None \<longleftrightarrow> (\<forall>p \<in> set m. shortCode (snd p) \<noteq> code)"
  by (induction m) auto

lemma find_code_Some:
  assumes "find (\<lambda>p. shortCode (snd p) = code) m = Some (k, u)"
  shows "(k, u) \<in> set m" and "shortCode u = code"
proof -
  from assms obtain i where i: "i < length m" "shortCode (snd (m ! i)) = code" "(k, u) = m ! i"
    unfolding find_Some_iff by blast
  from i(1,3) show "(k, u) \<in> set m" by (metis nth_mem)
  from i(2,3) show "shortCode u = code" by (metis snd_conv)
qed

lemma Map_set_entry:
  assumes "distinct (map fst m)" and "(k, u) \<in> set m"
  shows "Map_set k v m = map (\<lambda>p. if fst p = k then (k, v) else p) m"
  using assms by (intro Map_set_present) force+

lemma getUrlByShortCode_missing:
  assumes "\<forall>p \<in> set (urls st). shortCode (snd p) \<noteq> code"
  shows "getUrlByShortCode e st code = (None, st)"
  using assms by (simp add: getUrlByShortCode_def find_code_None [symmetric])

lemma getUrlByShortCode_expired:
  assumes "find (\<lambda>p. shortCode (snd p) = code) (urls st) = Some (k, u)"
    and "clock e 0 > expiresAt u"
  shows "getUrlByShortCode e st code
    = (None, saveToStorage e (st\<lparr>urls := Map_set k (u\<lparr>isExpired := True\<rparr>) (urls st)\<rparr>))"
  using assms by (simp add: getUrlByShortCode_def)

lemma getUrlByShortCode_live:
  assumes "find (\<lambda>p. shortCode (snd p) = code) (urls st) = Some (k, u)"
    and "clock e 0 \<le> expiresAt u"
  shows "getUrlByShortCode e st code = (Some (k, u), st)"
  using assms by (simp add: getUrlByShortCode_def)

lemma localStorage_saveToStorage:
  "localStorage (saveToStorage e st) = (if setItemOk e then Some (urls st) else localStorage st)"
  by (simp add: saveToStorage_def)

text \<open>
  C5: \<open>getUrlByShortCode\<close> at the time \<open>clock e 0\<close>. When no stored mapping has the code
  it returns nothing and changes nothing. Otherwise let \<open>(k, u)\<close> be the first stored
  entry with the code. When the time is strictly after \<open>expiresAt u\<close>, it returns
  nothing, the entry \<open>k\<close> gets \<open>isExpired = True\<close> and is otherwise as before, as are all
  other entries, and the snapshot is written (when \<open>setItem\<close> succeeds). When the time is
  at most \<open>expiresAt u\<close>, it returns that mapping and changes nothing.
\<close>

theorem C5_getUrlByShortCode:
  "((\<forall>p \<in> set (urls st). shortCode (snd p) \<noteq> code)
      \<longrightarrow> getUrlByShortCode e st code = (None, st))
   \<and> (find (\<lambda>p. shortCode (snd p) = code) (urls st) = Some (k, u)
      \<longrightarrow> (k, u) \<in> set (urls st) \<and> shortCode u = code
        \<and> (clock e 0 > expiresAt u
            \<longrightarrow> fst (getUrlByShortCode e st code) = None
              \<and> (distinct (map fst (urls st))
                  \<longrightarrow> urls (snd (getUrlByShortCode e st code))
                      = map (\<lambda>p. if fst p = k then (k, u\<lparr>isExpired := True\<rparr>) else p) (urls st))
              \<and> localStorage (snd (getUrlByShortCode e st code))
                  = (if setItemOk e then Some (urls (snd (getUrlByShortCode e st code)))
                     else localStorage st))
        \<and> (clock e 0 \<le> expiresAt u
            \<longrightarrow> getUrlByShortCode e st code = (Some (k, u), st)))"
proof -
  have a: "getUrlByShortCode e st code = (None, st)"
    if "\<forall>p \<in> set (urls st). shortCode (snd p) \<noteq> code"
    using that by (rule getUrlByShortCode_missing)
  have b: "(k, u) \<in> set (urls st) \<and> shortCode u = code
        \<and> (clock e 0 > expiresAt u
            \<longrightarrow> fst (getUrlByShortCode e st code) = None
              \<and> (distinct (map fst (urls st))
                  \<longrightarrow> urls (snd (getUrlByShortCode e st code))
                      = map (\<lambda>p. if fst p = k then (k, u\<lparr>isExpired := True\<rparr>) else p) (urls st))
              \<and> localStorage (snd (getUrlByShortCode e st code))
                  = (if setItemOk e then Some (urls (snd (getUrlByShortCode e st code)))
                     else localStorage st))
        \<and> (clock e 0 \<le> expiresAt u
            \<longrightarrow> getUrlByShortCode e st code = (Some (k, u), st))"
    if f: "find (\<lambda>p. shortCode (snd p) = code) (urls st) = Some (k, u)"
  proof -
    note m = find_code_Some [OF f]
    have "urls (snd (getUrlByShortCode e st code))
            = map (\<lambda>p. if fst p = k then (k, u\<lparr>isExpired := True\<rparr>) else p) (urls st)"
      if "clock e 0 > expiresAt u" "distinct (map fst (urls st))"
      using that m(1)
      by (simp add: getUrlByShortCode_expired [OF f] urls_saveToStorage Map_set_entry)
    moreover have "fst (getUrlByShortCode e st code) = None
        \<and> localStorage (snd (getUrlByShortCode e st code))
            = (if setItemOk e then Some (urls (snd (getUrlByShortCode e st code)))
               else localStorage st)"
      if "clock e 0 > expiresAt u"
      using that
      by (simp add: getUrlByShortCode_expired [OF f] urls_saveToStorage
            localStorage_saveToStorage)
    moreover have "getUrlByShortCode e st code = (Some (k, u), st)"
      if "clock e 0 \<le> expiresAt u"
      using f that by (rule getUrlByShortCode_live)
    ultimately show ?thesis using m by blast
  qed
  from a b show ?thesis by blast
qed

theorem C5_getUrlByShortCode_witness:
  "getUrlByShortCode (exampleEnv ''x'' 60000 (\<lambda>_. 0))
       (exampleService [(''1'', exampleUrl ''1'' ''promo1'' 0 60000 False)]) ''promo1''
     = (Some (''1'', exampleUrl ''1'' ''promo1'' 0 60000 False),
        exampleService [(''1'', exampleUrl ''1'' ''promo1'' 0 60000 False)])
   \<and> fst (getUrlByShortCode (exampleEnv ''x'' 60001 (\<lambda>_. 0))
       (exampleService [(''1'', exampleUrl ''1'' ''promo1'' 0 60000 False)]) ''promo1'') = None
   \<and> urls (snd (getUrlByShortCode (exampleEnv ''x'' 60001 (\<lambda>_. 0))
       (exampleService [(''1'', exampleUrl ''1'' ''promo1'' 0 60000 False)]) ''promo1''))
     = [(''1'', exampleUrl ''1'' ''promo1'' 0 60000 True)]
   \<and> getUrlByShortCode (exampleEnv ''x'' 0 (\<lambda>_. 0))
       (exampleService [(''1'', exampleUrl ''1'' ''promo1'' 0 60000 False)]) ''promo2''
     = (None, exampleService [(''1'', exampleUrl ''1'' ''promo1'' 0 60000 False)])"
proof -
  let ?u = "exampleUrl ''1'' ''promo1'' 0 60000 False"
  let ?st = "exampleService [(''1'', ?u)]"
  have f: "find (\<lambda>p. shortCode (snd p) = ''promo1'') (urls ?st) = Some (''1'', ?u)"
    by (simp add: exampleService_def exampleUrl_def)
  have n: "\<forall>p \<in> set (urls ?st). shortCode (snd p) \<noteq> ''promo2''"
    by (simp add: exampleService_def exampleUrl_def)
  have d: "distinct (map fst (urls ?st))"
    by (simp add: exampleService_def)
  have live: "clock (exampleEnv ''x'' 60000 (\<lambda>_. 0)) 0 \<le> expiresAt ?u"
    by (simp add: exampleEnv_def exampleUrl_def)
  have dead: "clock (exampleEnv ''x'' 60001 (\<lambda>_. 0)) 0 > expiresAt ?u"
    by (simp add: exampleEnv_def exampleUrl_def)
  have flag: "map (\<lambda>p. if fst p = ''1'' then (''1'', ?u\<lparr>isExpired := True\<rparr>) else p) (urls ?st)
      = [(''1'', exampleUrl ''1'' ''promo1'' 0 60000 True)]"
    by (simp add: exampleService_def exampleUrl_def)
  from C5_getUrlByShortCode [of ?st "''promo1''" "exampleEnv ''x'' 60000 (\<lambda>_. 0)" "''1''" ?u]
    f live
  have 1: "getUrlByShortCode (exampleEnv ''x'' 60000 (\<lambda>_. 0)) ?st ''promo1''
      = (Some (''1'', ?u), ?st)" by blast
  from C5_getUrlByShortCode [of ?st "''promo1''" "exampleEnv ''x'' 60001 (\<lambda>_. 0)" "''1''" ?u]
    f dead d
  have 2: "fst (getUrlByShortCode (exampleEnv ''x'' 60001 (\<lambda>_. 0)) ?st ''promo1'') = None"
    and 3: "urls (snd (getUrlByShortCode (exampleEnv ''x'' 60001 (\<lambda>_. 0)) ?st ''promo1''))
      = map (\<lambda>p. if fst p = ''1'' then (''1'', ?u\<lparr>isExpired := True\<rparr>) else p) (urls ?st)"
    by blast+
  from C5_getUrlByShortCode [of ?st "''promo2''" "exampleEnv ''x'' 0 (\<lambda>_. 0)"] n
  have 4: "getUrlByShortCode (exampleEnv ''x'' 0 (\<lambda>_. 0)) ?st ''promo2'' = (None, ?st)"
    by blast
  from 1 2 3 4 flag show ?thesis by simp
qed

section \<open>Deletion\<close>

lemma map_of_Map_delete:
  "map_of (Map_delete k m) k' = (if k' = k then None else map_of m k')"
  by (induction m) (auto simp: Map_delete_def)

lemma length_Map_delete:
  "distinct (map fst m) \<Longrightarrow> k \<in> fst ` set m \<Longrightarrow> Suc (length (Map_delete k m)) = length m"
proof (induction m)
  case Nil
  then show ?case by simp
next
  case (Cons p m)
  show ?case
  proof (cases "fst p = k")
    case True
    with Cons.prems have "k \<notin> fst ` set m" by auto
    then have "filter (\<lambda>p. fst p \<noteq> k) m = m"
      by (induction m) auto
    with True show ?thesis by (simp add: Map_delete_def)
  next
    case False
    with Cons show ?thesis by (auto simp: Map_delete_def)
  qed
qed

text \<open>
  C8: \<open>deleteUrl\<close> on an id that is not a key returns false and leaves the service as it
  is. On a key it returns true; the map loses exactly the entry of that key (one entry
  fewer, nothing under the id, every other key with the value it had, in the order it
  had). If the deleted mapping held a well-formed code that no other stored mapping
  holds, a create that asks for this code, refused with \<open>ShortCodeTaken\<close> before the
  deletion, returns a mapping with this code after it.
\<close>

theorem C8_deleteUrl:
  assumes "distinct (map fst (urls st))"
  shows "(\<not> Map_has ident (urls st) \<longrightarrow> deleteUrl e st ident = (False, st))
       \<and> (Map_has ident (urls st)
          \<longrightarrow> fst (deleteUrl e st ident) = True
            \<and> urls (snd (deleteUrl e st ident)) = filter (\<lambda>p. fst p \<noteq> ident) (urls st)
            \<and> Suc (length (urls (snd (deleteUrl e st ident)))) = length (urls st)
            \<and> map_of (urls (snd (deleteUrl e st ident))) ident = None
            \<and> (\<forall>k. k \<noteq> ident
                 \<longrightarrow> map_of (urls (snd (deleteUrl e st ident))) k = map_of (urls st) k))
       \<and> ((ident, u) \<in> set (urls st)
            \<and> (\<forall>p \<in> set (urls st). fst p \<noteq> ident \<longrightarrow> shortCode (snd p) \<noteq> shortCode u)
            \<and> isValidShortCode (shortCode u)
            \<and> customShortCode request = Some (shortCode u)
            \<and> isValidUrl (req_originalUrl request)
            \<and> expiresAtDate (clock e' 0) (validityOrDefault (validityMinutes request)) \<noteq> None
          \<longrightarrow> createShortenedUrl isValidUrl e' st request = Inl ShortCodeTaken
            \<and> (\<exists>u' st'. createShortenedUrl isValidUrl e' (snd (deleteUrl e st ident)) request
                          = Inr (u', st')
                  \<and> shortCode u' = shortCode u))"
proof -
  have a: "deleteUrl e st ident = (False, st)" if "\<not> Map_has ident (urls st)"
    using that by (simp add: deleteUrl_def)
  have after: "urls (snd (deleteUrl e st ident)) = Map_delete ident (urls st)"
    if "Map_has ident (urls st)"
    using that by (simp add: deleteUrl_def urls_saveToStorage)
  have b: "fst (deleteUrl e st ident) = True
            \<and> urls (snd (deleteUrl e st ident)) = filter (\<lambda>p. fst p \<noteq> ident) (urls st)
            \<and> Suc (length (urls (snd (deleteUrl e st ident)))) = length (urls st)
            \<and> map_of (urls (snd (deleteUrl e st ident))) ident = None
            \<and> (\<forall>k. k \<noteq> ident
                 \<longrightarrow> map_of (urls (snd (deleteUrl e st ident))) k = map_of (urls st) k)"
    if h: "Map_has ident (urls st)"
  proof -
    from h have "ident \<in> fst ` set (urls st)" by (simp add: Map_has_def)
    with assms have "Suc (length (Map_delete ident (urls st))) = length (urls st)"
      by (rule length_Map_delete)
    moreover have "fst (deleteUrl e st ident) = True"
      using h by (simp add: deleteUrl_def)
    ultimately show ?thesis
      by (simp add: after [OF h] map_of_Map_delete) (simp add: Map_delete_def)
  qed
  have c: "createShortenedUrl isValidUrl e' st request = Inl ShortCodeTaken
            \<and> (\<exists>u' st'. createShortenedUrl isValidUrl e' (snd (deleteUrl e st ident)) request
                          = Inr (u', st')
                  \<and> shortCode u' = shortCode u)"
    if m: "(ident, u) \<in> set (urls st)"
      and o: "\<forall>p \<in> set (urls st). fst p \<noteq> ident \<longrightarrow> shortCode (snd p) \<noteq> shortCode u"
      and v: "isValidShortCode (shortCode u)"
      and r: "customShortCode request = Some (shortCode u)"
      and w: "isValidUrl (req_originalUrl request)"
      and t: "expiresAtDate (clock e' 0) (validityOrDefault (validityMinutes request)) \<noteq> None"
  proof -
    from v have ne: "shortCode u \<noteq> []" by (auto simp: isValidShortCode_def)
    from m have h: "Map_has ident (urls st)" by (force simp: Map_has_def)
    from m have taken: "isShortCodeTaken (urls st) (shortCode u)"
      by (force simp: isShortCodeTaken_iff_entry)
    have free: "\<not> isShortCodeTaken (urls (snd (deleteUrl e st ident))) (shortCode u)"
      using o by (auto simp: after [OF h] isShortCodeTaken_iff_entry Map_delete_def)
    have "createShortenedUrl isValidUrl e' st request = Inl ShortCodeTaken"
      using taken v r w ne by (simp add: createShortenedUrl_def determineShortCode_def)
    moreover have "determineShortCode e' (urls (snd (deleteUrl e st ident)))
        (customShortCode request) = Inr (shortCode u)"
      using free v r ne by (simp add: determineShortCode_def)
    with w have "\<exists>u' st'. createShortenedUrl isValidUrl e' (snd (deleteUrl e st ident)) request
                          = Inr (u', st') \<and> shortCode u' = shortCode u"
      using t by (auto simp: createShortenedUrl_def toISOString_def Let_def)
    ultimately show ?thesis by blast
  qed
  from a b c show ?thesis by blast
qed

theorem C8_deleteUrl_witness:
  "deleteUrl (exampleEnv ''x'' 0 (\<lambda>_. 0))
       (exampleService [(''1'', exampleUrl ''1'' ''promo1'' 0 60000 False),
                        (''2'', exampleUrl ''2'' ''promo2'' 0 60000 False)]) ''3''
     = (False, exampleService [(''1'', exampleUrl ''1'' ''promo1'' 0 60000 False),
                               (''2'', exampleUrl ''2'' ''promo2'' 0 60000 False)])
   \<and> fst (deleteUrl (exampleEnv ''x'' 0 (\<lambda>_. 0))
       (exampleService [(''1'', exampleUrl ''1'' ''promo1'' 0 60000 False),
                        (''2'', exampleUrl ''2'' ''promo2'' 0 60000 False)]) ''1'') = True
   \<and> urls (snd (deleteUrl (exampleEnv ''x'' 0 (\<lambda>_. 0))
       (exampleService [(''1'', exampleUrl ''1'' ''promo1'' 0 60000 False),
                        (''2'', exampleUrl ''2'' ''promo2'' 0 60000 False)]) ''1''))
     = [(''2'', exampleUrl ''2'' ''promo2'' 0 60000 False)]
   \<and> (\<exists>u' st'. createShortenedUrl parses (exampleEnv ''3'' 5 (\<lambda>_. 0))
         (snd (deleteUrl (exampleEnv ''x'' 0 (\<lambda>_. 0))
            (exampleService [(''1'', exampleUrl ''1'' ''promo1'' 0 60000 False),
                             (''2'', exampleUrl ''2'' ''promo2'' 0 60000 False)]) ''1''))
         (exampleRequest None (Some ''promo1'')) = Inr (u', st')
       \<and> shortCode u' = ''promo1'')"
proof -
  let ?u = "exampleUrl ''1'' ''promo1'' 0 60000 False"
  let ?m = "[(''1'', ?u), (''2'', exampleUrl ''2'' ''promo2'' 0 60000 False)]"
  let ?st = "exampleService ?m"
  let ?e = "exampleEnv ''x'' 0 (\<lambda>_. 0)"
  let ?e' = "exampleEnv ''3'' 5 (\<lambda>_. 0)"
  let ?r = "exampleRequest None (Some ''promo1'')"
  have d: "distinct (map fst (urls ?st))" by (simp add: exampleService_def)
  have h3: "\<not> Map_has ''3'' (urls ?st)" by (simp add: exampleService_def Map_has_def)
  have h1: "Map_has ''1'' (urls ?st)" by (simp add: exampleService_def Map_has_def)
  have f: "filter (\<lambda>p. fst p \<noteq> ''1'') (urls ?st)
      = [(''2'', exampleUrl ''2'' ''promo2'' 0 60000 False)]"
    by (simp add: exampleService_def)
  have v: "isValidShortCode (shortCode ?u)" by code_simp
  have "expiresAtDate (clock ?e' 0) (validityOrDefault (validityMinutes ?r)) \<noteq> None"
    by code_simp
  then have pre: "(''1'', ?u) \<in> set (urls ?st)
      \<and> (\<forall>p \<in> set (urls ?st). fst p \<noteq> ''1'' \<longrightarrow> shortCode (snd p) \<noteq> shortCode ?u)
      \<and> customShortCode ?r = Some (shortCode ?u)
      \<and> parses (req_originalUrl ?r)
      \<and> expiresAtDate (clock ?e' 0) (validityOrDefault (validityMinutes ?r)) \<noteq> None"
    by (simp add: exampleService_def exampleUrl_def exampleRequest_def parses_def)
  have c: "shortCode ?u = ''promo1''" by (simp add: exampleUrl_def)
  from C8_deleteUrl [OF d, of "''3''" ?e] h3
  have 1: "deleteUrl ?e ?st ''3'' = (False, ?st)" by blast
  from C8_deleteUrl [OF d, of "''1''" ?e] h1
  have 2: "fst (deleteUrl ?e ?st ''1'') = True"
    and 3: "urls (snd (deleteUrl ?e ?st ''1'')) = filter (\<lambda>p. fst p \<noteq> ''1'') (urls ?st)"
    by blast+
  from C8_deleteUrl [OF d, of "''1''" ?e ?u ?r parses ?e'] pre v
  have 4: "\<exists>u' st'. createShortenedUrl parses ?e' (snd (deleteUrl ?e ?st ''1'')) ?r
      = Inr (u', st') \<and> shortCode u' = shortCode ?u"
    by blast
  from 1 2 3 4 f c show ?thesis by simp
qed

section \<open>Listing\<close>

lemma length_updateExpired: "length (updateExpired clk i m) = length m"
  by (induction clk i m rule: updateExpired.induct) auto

lemma nth_updateExpired:
  "j < length m \<Longrightarrow> updateExpired clk i m ! j
     = (fst (m ! j), (snd (m ! j))\<lparr>isExpired := isExpired (snd (m ! j))
          \<or> clk (i + j) > expiresAt (snd (m ! j))\<rparr>)"
proof (induction clk i m arbitrary: j rule: updateExpired.induct)
  case (1 clk i)
  then show ?case by simp
next
  case (2 clk i k u m)
  show ?case
  proof (cases j)
    case 0
    then show ?thesis by simp
  next
    case (Suc j')
    with "2.prems" have "j' < length m" by simp
    from "2.IH" [OF this] Suc show ?thesis by simp
  qed
qed

lemma sorted_createdAt_desc:
  assumes "sorted (map (\<lambda>u. - createdAt u) xs)" and "i \<le> j" and "j < length xs"
  shows "createdAt (xs ! j) \<le> createdAt (xs ! i)"
proof -
  from assms have "map (\<lambda>u. - createdAt u) xs ! i \<le> map (\<lambda>u. - createdAt u) xs ! j"
    by (intro sorted_nth_mono) simp_all
  with assms show ?thesis by simp
qed

text \<open>
  C9, as the code has it: \<open>getAllUrls\<close> keeps the keys and their order, and gives the
  entry at position \<open>j\<close> the flag \<open>isExpired \<or> clock e j > expiresAt\<close> (the clock read for
  that entry), changing nothing else: the flag is set when the time is past the expiry
  and is otherwise left as cached, never reset. The list returned is a permutation of
  the stored mappings, expired ones included, in descending order of \<open>createdAt\<close>, and
  the snapshot is written (when \<open>setItem\<close> succeeds).
\<close>

theorem C9_getAllUrls:
  "length (urls (snd (getAllUrls e st))) = length (urls st)
   \<and> (\<forall>j<length (urls st). urls (snd (getAllUrls e st)) ! j
        = (fst (urls st ! j),
           (snd (urls st ! j))\<lparr>isExpired := isExpired (snd (urls st ! j))
              \<or> clock e j > expiresAt (snd (urls st ! j))\<rparr>))
   \<and> mset (fst (getAllUrls e st)) = mset (Map_values (urls (snd (getAllUrls e st))))
   \<and> (\<forall>i j. i \<le> j \<and> j < length (fst (getAllUrls e st))
        \<longrightarrow> createdAt (fst (getAllUrls e st) ! j) \<le> createdAt (fst (getAllUrls e st) ! i))
   \<and> localStorage (snd (getAllUrls e st))
        = (if setItemOk e then Some (urls (snd (getAllUrls e st))) else localStorage st)"
proof -
  have u: "urls (snd (getAllUrls e st)) = updateExpired (clock e) 0 (urls st)"
    by (simp add: getAllUrls_def Let_def urls_saveToStorage)
  have r: "fst (getAllUrls e st)
      = sort_key (\<lambda>u. - createdAt u) (Map_values (urls (snd (getAllUrls e st))))"
    by (simp add: getAllUrls_def Let_def)
  have 1: "length (urls (snd (getAllUrls e st))) = length (urls st)"
    by (simp add: u length_updateExpired)
  have 2: "urls (snd (getAllUrls e st)) ! j
        = (fst (urls st ! j),
           (snd (urls st ! j))\<lparr>isExpired := isExpired (snd (urls st ! j))
              \<or> clock e j > expiresAt (snd (urls st ! j))\<rparr>)"
    if "j < length (urls st)" for j
    using nth_updateExpired [OF that, of "clock e" 0] by (simp add: u)
  have 3: "mset (fst (getAllUrls e st)) = mset (Map_values (urls (snd (getAllUrls e st))))"
    by (simp add: r)
  have s: "sorted (map (\<lambda>u. - createdAt u) (fst (getAllUrls e st)))"
    by (simp add: r)
  have 4: "createdAt (fst (getAllUrls e st) ! j) \<le> createdAt (fst (getAllUrls e st) ! i)"
    if "i \<le> j" "j < length (fst (getAllUrls e st))" for i j
    using s that by (rule sorted_createdAt_desc)
  have 5: "localStorage (snd (getAllUrls e st))
        = (if setItemOk e then Some (urls (snd (getAllUrls e st))) else localStorage st)"
    by (simp add: getAllUrls_def Let_def localStorage_saveToStorage urls_saveToStorage)
  from 1 2 3 4 5 show ?thesis by blast
qed

theorem C9_getAllUrls_witness:
  "urls (snd (getAllUrls (exampleEnv ''x'' 60001 (\<lambda>_. 0))
     (exampleService [(''1'', exampleUrl ''1'' ''promo1'' 0 60000 False),
                      (''2'', exampleUrl ''2'' ''promo2'' 10 60010 False)]))) ! 0
     = (''1'', exampleUrl ''1'' ''promo1'' 0 60000 True)
   \<and> createdAt (fst (getAllUrls (exampleEnv ''x'' 60001 (\<lambda>_. 0))
     (exampleService [(''1'', exampleUrl ''1'' ''promo1'' 0 60000 False),
                      (''2'', exampleUrl ''2'' ''promo2'' 10 60010 False)])) ! 1)
     \<le> createdAt (fst (getAllUrls (exampleEnv ''x'' 60001 (\<lambda>_. 0))
     (exampleService [(''1'', exampleUrl ''1'' ''promo1'' 0 60000 False),
                      (''2'', exampleUrl ''2'' ''promo2'' 10 60010 False)])) ! 0)"
proof -
  let ?m = "[(''1'', exampleUrl ''1'' ''promo1'' 0 60000 False),
             (''2'', exampleUrl ''2'' ''promo2'' 10 60010 False)]"
  let ?st = "exampleService ?m"
  let ?e = "exampleEnv ''x'' 60001 (\<lambda>_. 0)"
  let ?r = "fst (getAllUrls ?e ?st)"
  let ?after = "urls (snd (getAllUrls ?e ?st))"
  note t = C9_getAllUrls [of ?e ?st]
  note t1 = t [THEN conjunct1]
  note t2 = t [THEN conjunct2, THEN conjunct1, rule_format]
  note t3 = t [THEN conjunct2, THEN conjunct2, THEN conjunct1]
  note t4 = t [THEN conjunct2, THEN conjunct2, THEN conjunct2, THEN conjunct1, rule_format]
  have len: "length (urls ?st) = 2" by (simp add: exampleService_def)
  have "0 < length (urls ?st)" by (simp add: len)
  from t2 [OF this]
  have a: "?after ! 0 = (''1'', exampleUrl ''1'' ''promo1'' 0 60000 True)"
    by (simp add: exampleService_def exampleUrl_def exampleEnv_def)
  have "size (mset ?r) = size (mset (Map_values ?after))"
    by (simp only: t3)
  then have "length ?r = length ?after" by (simp add: Map_values_def)
  with t1 len have "(0::nat) \<le> 1 \<and> 1 < length ?r" by simp
  from t4 [OF this] have b: "createdAt (?r ! 1) \<le> createdAt (?r ! 0)" .
  from a b show ?thesis by (rule conjI)
qed

text \<open>
  C9 as stated fails where the cached flag is stale: a mapping created at time 0 for one
  minute is looked up at time 70000, which sets its flag, and is then listed at time
  1000, before its expiry at 60000; the mapping is returned with \<open>isExpired = True\<close>.
\<close>

theorem C9_counterexample:
  "(case createShortenedUrl parses (exampleEnv ''1'' 0 (\<lambda>_. 0)) init
           (exampleRequest (Some (Finite 1)) (Some ''promo1'')) of
      Inl _ \<Rightarrow> False
    | Inr (u1, s1) \<Rightarrow>
        map (\<lambda>u. (shortCode u, expiresAt u, isExpired u))
          (fst (getAllUrls (exampleEnv ''x'' 1000 (\<lambda>_. 0))
             (snd (getUrlByShortCode (exampleEnv ''x'' 70000 (\<lambda>_. 0)) s1 ''promo1''))))
        = [(''promo1'', 60000, True)]
        \<and> \<not> (1000 > (60000 :: int)))"
  by code_simp

section \<open>Click recording\<close>

lemma recordClickAndRedirect_missing:
  assumes "\<forall>p \<in> set (urls st). shortCode (snd p) \<noteq> code"
  shows "recordClickAndRedirect e st code src = (None, st)"
  by (simp add: recordClickAndRedirect_def getUrlByShortCode_missing [OF assms])

lemma recordClickAndRedirect_expired:
  assumes "find (\<lambda>p. shortCode (snd p) = code) (urls st) = Some (k, u)"
    and "clock e 0 > expiresAt u"
  shows "recordClickAndRedirect e st code src
    = (None, saveToStorage e (st\<lparr>urls := Map_set k (u\<lparr>isExpired := True\<rparr>) (urls st)\<rparr>))"
  by (simp add: recordClickAndRedirect_def getUrlByShortCode_expired [OF assms])

lemma recordClickAndRedirect_live:
  assumes "find (\<lambda>p. shortCode (snd p) = code) (urls st) = Some (k, u)"
    and "clock e 0 \<le> expiresAt u"
  shows "recordClickAndRedirect e st code src
    = (Some (originalUrl u),
       saveToStorage e (st\<lparr>urls :=
         Map_set k (u\<lparr>clicks := clicks u @ [newClickData e src],
                      totalClicks := Suc (length (clicks u))\<rparr>) (urls st)\<rparr>))"
  by (simp add: recordClickAndRedirect_def getUrlByShortCode_live [OF assms] Let_def)

lemma map_update_same:
  assumes "distinct (map fst m)" and "(k, u) \<in> set m" and "f (k, v) = f (k, u)"
  shows "map f (map (\<lambda>p. if fst p = k then (k, v) else p) m) = map f m"
proof -
  have "f (if fst p = k then (k, v) else p) = f p" if "p \<in> set m" for p
  proof (cases "fst p = k")
    case True
    from assms(1,2) that True have "p = (k, u)"
      by (metis eq_key_imp_eq_value prod.collapse)
    with assms(3) True show ?thesis by simp
  next
    case False
    then show ?thesis by simp
  qed
  then show ?thesis by simp
qed

lemma find_update:
  assumes "distinct (map fst m)"
    and "find (\<lambda>p. shortCode (snd p) = code) m = Some (k, u)"
    and "shortCode v = code"
  shows "find (\<lambda>p. shortCode (snd p) = code) (map (\<lambda>p. if fst p = k then (k, v) else p) m)
    = Some (k, v)"
  using assms
proof (induction m)
  case Nil
  then show ?case by simp
next
  case (Cons p m)
  show ?case
  proof (cases "shortCode (snd p) = code")
    case True
    with Cons.prems(2) have "p = (k, u)" by simp
    with Cons.prems(3) show ?thesis by simp
  next
    case False
    with Cons.prems(2) have f: "find (\<lambda>p. shortCode (snd p) = code) m = Some (k, u)"
      by simp
    then have "(k, u) \<in> set m" by (rule find_code_Some)
    then have "k \<in> fst ` set m" by force
    with Cons.prems(1) have "fst p \<noteq> k" by auto
    moreover from Cons.IH Cons.prems(1,3) f
    have "find (\<lambda>p. shortCode (snd p) = code) (map (\<lambda>p. if fst p = k then (k, v) else p) m)
      = Some (k, v)" by simp
    ultimately show ?thesis using False by simp
  qed
qed

lemma updateExpired_entry:
  "p' \<in> set (updateExpired clk i m)
    \<Longrightarrow> \<exists>p \<in> set m. fst p = fst p' \<and> clicks (snd p) = clicks (snd p')
          \<and> totalClicks (snd p) = totalClicks (snd p')"
  by (induction clk i m rule: updateExpired.induct) (auto split: if_splits)

text \<open>
  What a call other than \<open>recordClickAndRedirect\<close> does to the clicks: every entry after
  the call is a new mapping without clicks, or has the key, the clicks and the count of
  an entry before the call.
\<close>

lemma perform_other_entry:
  assumes "\<forall>c s. op \<noteq> RecordAccess c s"
    and "p' \<in> set (urls (perform isValidUrl e op st))"
  shows "(clicks (snd p') = [] \<and> totalClicks (snd p') = 0)
       \<or> (\<exists>p \<in> set (urls st). fst p = fst p' \<and> clicks (snd p) = clicks (snd p')
            \<and> totalClicks (snd p) = totalClicks (snd p'))"
proof (cases op)
  case (Create request)
  show ?thesis
  proof (cases "createShortenedUrl isValidUrl e st request")
    case (Inl err)
    with Create assms(2) show ?thesis by (auto simp: perform_def)
  next
    case (Inr r)
    obtain u st' where r: "r = (u, st')" by (cases r)
    note c = createShortenedUrl_Inr [OF Inr [unfolded r]]
    have "urls st' = Map_set (freshId e) u (urls st)"
      by (subst c(5)) (simp add: urls_saveToStorage)
    with Create Inr r assms(2) have "p' \<in> set (Map_set (freshId e) u (urls st))"
      by (simp add: perform_def)
    with set_Map_set have "p' = (freshId e, u) \<or> p' \<in> set (urls st)" by blast
    moreover have "clicks u = [] \<and> totalClicks u = 0" by (subst c(4), subst c(4)) simp
    ultimately show ?thesis by auto
  qed
next
  case (Lookup code)
  show ?thesis
  proof (cases "find (\<lambda>p. shortCode (snd p) = code) (urls st)")
    case None
    then have "getUrlByShortCode e st code = (None, st)"
      by (simp add: getUrlByShortCode_def)
    with Lookup assms(2) show ?thesis by (auto simp: perform_def)
  next
    case (Some q)
    obtain k u where q: "q = (k, u)" by (cases q)
    note f = Some [unfolded q]
    show ?thesis
    proof (cases "clock e 0 > expiresAt u")
      case True
      with Lookup assms(2) getUrlByShortCode_expired [OF f True]
      have "p' \<in> set (Map_set k (u\<lparr>isExpired := True\<rparr>) (urls st))"
        by (simp add: perform_def urls_saveToStorage)
      with set_Map_set have "p' = (k, u\<lparr>isExpired := True\<rparr>) \<or> p' \<in> set (urls st)" by blast
      moreover have "(k, u) \<in> set (urls st)" using f by (rule find_code_Some)
      ultimately show ?thesis by force
    next
      case False
      then have "getUrlByShortCode e st code = (Some (k, u), st)"
        using f by (simp add: getUrlByShortCode_live)
      with Lookup assms(2) show ?thesis by (auto simp: perform_def)
    qed
  qed
next
  case (RecordAccess code src)
  with assms(1) show ?thesis by simp
next
  case ListAll
  with assms(2) have "p' \<in> set (updateExpired (clock e) 0 (urls st))"
    by (simp add: perform_def getAllUrls_def Let_def urls_saveToStorage)
  then show ?thesis by (blast dest: updateExpired_entry)
next
  case (Delete ident)
  with assms(2) have "p' \<in> set (urls st)"
    by (auto simp: perform_def deleteUrl_def urls_saveToStorage Map_delete_def
          split: if_splits)
  then show ?thesis by blast
next
  case Clear
  with assms(2) show ?thesis by (simp add: perform_def clearAllData_def)
qed

lemma perform_record_entry:
  assumes "p' \<in> set (urls (perform isValidUrl e (RecordAccess code src) st))"
  shows "totalClicks (snd p') = length (clicks (snd p'))
       \<or> (\<exists>p \<in> set (urls st). fst p = fst p' \<and> clicks (snd p) = clicks (snd p')
            \<and> totalClicks (snd p) = totalClicks (snd p'))"
proof (cases "find (\<lambda>p. shortCode (snd p) = code) (urls st)")
  case None
  then have "\<forall>p \<in> set (urls st). shortCode (snd p) \<noteq> code"
    by (simp add: find_code_None)
  from recordClickAndRedirect_missing [OF this] assms show ?thesis
    by (auto simp: perform_def)
next
  case (Some q)
  obtain k u where q: "q = (k, u)" by (cases q)
  note f = Some [unfolded q]
  have m: "(k, u) \<in> set (urls st)" using f by (rule find_code_Some)
  show ?thesis
  proof (cases "clock e 0 > expiresAt u")
    case True
    with assms recordClickAndRedirect_expired [OF f True]
    have "p' \<in> set (Map_set k (u\<lparr>isExpired := True\<rparr>) (urls st))"
      by (simp add: perform_def urls_saveToStorage)
    with set_Map_set have "p' = (k, u\<lparr>isExpired := True\<rparr>) \<or> p' \<in> set (urls st)" by blast
    with m show ?thesis by force
  next
    case False
    then have live: "clock e 0 \<le> expiresAt u" by simp
    let ?v = "u\<lparr>clicks := clicks u @ [newClickData e src],
                 totalClicks := Suc (length (clicks u))\<rparr>"
    from assms recordClickAndRedirect_live [OF f live]
    have "p' \<in> set (Map_set k ?v (urls st))"
      by (simp add: perform_def urls_saveToStorage)
    with set_Map_set have "p' = (k, ?v) \<or> p' \<in> set (urls st)" by blast
    then show ?thesis by auto
  qed
qed

lemma map_update_twice:
  "map (\<lambda>p. if fst p = k then (k, w) else p) (map (\<lambda>p. if fst p = k then (k, v) else p) m)
     = map (\<lambda>p. if fst p = k then (k, w) else p) m"
  by (induction m) auto

lemma recordMany_live:
  assumes "distinct (map fst (urls st))"
    and "find (\<lambda>p. shortCode (snd p) = code) (urls st) = Some (k, u)"
    and "totalClicks u = length (clicks u)"
    and "\<forall>c \<in> set cs. clock (fst c) 0 \<le> expiresAt u"
  shows "fst (recordMany st code cs) = map (\<lambda>c. Some (originalUrl u)) cs
       \<and> urls (snd (recordMany st code cs))
          = map (\<lambda>p. if fst p = k
                     then (k, u\<lparr>clicks := clicks u @ map (\<lambda>c. newClickData (fst c) (snd c)) cs,
                                 totalClicks := length (clicks u) + length cs\<rparr>)
                     else p) (urls st)"
  using assms
proof (induction cs arbitrary: st u)
  case Nil
  have m: "(k, u) \<in> set (urls st)" using Nil.prems(2) by (rule find_code_Some)
  have eq: "u\<lparr>clicks := clicks u @ map (\<lambda>c. newClickData (fst c) (snd c)) [],
          totalClicks := length (clicks u) + length ([] :: (env \<times> string option) list)\<rparr> = u"
    using Nil.prems(3) by simp
  have idm: "map (\<lambda>p. if fst p = k then (k, u) else p) (urls st) = urls st"
    using map_update_same [OF Nil.prems(1) m, of "\<lambda>x. x" u] by simp
  show ?case by (subst eq) (simp add: idm)
next
  case (Cons c cs)
  let ?e = "fst c" and ?src = "snd c"
  let ?u1 = "u\<lparr>clicks := clicks u @ [newClickData ?e ?src],
                totalClicks := Suc (length (clicks u))\<rparr>"
  let ?st1 = "snd (recordClickAndRedirect ?e st code ?src)"
  have m: "(k, u) \<in> set (urls st)" using Cons.prems(2) by (rule find_code_Some)
  have code: "shortCode u = code" using Cons.prems(2) by (rule find_code_Some)
  have live: "clock ?e 0 \<le> expiresAt u" using Cons.prems(4) by simp
  note r = recordClickAndRedirect_live [OF Cons.prems(2) live, of ?src]
  have res: "fst (recordClickAndRedirect ?e st code ?src) = Some (originalUrl u)"
    by (simp add: r)
  have st1: "urls ?st1 = map (\<lambda>p. if fst p = k then (k, ?u1) else p) (urls st)"
    by (simp add: r urls_saveToStorage Map_set_entry [OF Cons.prems(1) m])
  have d1: "distinct (map fst (urls ?st1))"
  proof -
    have "map fst (urls ?st1) = map fst (urls st)"
      unfolding st1 by (induction "urls st") auto
    with Cons.prems(1) show ?thesis by simp
  qed
  have f1: "find (\<lambda>p. shortCode (snd p) = code) (urls ?st1) = Some (k, ?u1)"
    unfolding st1 using Cons.prems(1,2) code by (intro find_update) simp_all
  have t1: "totalClicks ?u1 = length (clicks ?u1)" by simp
  have l1: "\<forall>c \<in> set cs. clock (fst c) 0 \<le> expiresAt ?u1"
    using Cons.prems(4) by simp
  note ih = Cons.IH [OF d1 f1 t1 l1]
  have u': "?u1\<lparr>clicks := clicks ?u1 @ map (\<lambda>c. newClickData (fst c) (snd c)) cs,
               totalClicks := length (clicks ?u1) + length cs\<rparr>
      = u\<lparr>clicks := clicks u @ map (\<lambda>c. newClickData (fst c) (snd c)) (c # cs),
           totalClicks := length (clicks u) + length (c # cs)\<rparr>"
    by simp
  have a: "fst (recordMany st code (c # cs)) = map (\<lambda>c. Some (originalUrl u)) (c # cs)"
    using ih [THEN conjunct1] res by (simp add: Let_def)
  have "urls (snd (recordMany st code (c # cs))) = urls (snd (recordMany ?st1 code cs))"
    by (simp add: Let_def)
  also have "\<dots> = map (\<lambda>p. if fst p = k
        then (k, u\<lparr>clicks := clicks u @ map (\<lambda>c. newClickData (fst c) (snd c)) (c # cs),
                    totalClicks := length (clicks u) + length (c # cs)\<rparr>)
        else p) (urls ?st1)"
    using ih [THEN conjunct2] unfolding u' .
  also have "\<dots> = map (\<lambda>p. if fst p = k
        then (k, u\<lparr>clicks := clicks u @ map (\<lambda>c. newClickData (fst c) (snd c)) (c # cs),
                    totalClicks := length (clicks u) + length (c # cs)\<rparr>)
        else p) (urls st)"
    unfolding st1 by (rule map_update_twice)
  finally show ?case using a by blast
qed

lemma clicksConsistent_perform:
  assumes "clicksConsistent st"
  shows "clicksConsistent (perform isValidUrl e op st)"
proof -
  have "totalClicks (snd p') = length (clicks (snd p'))"
    if p': "p' \<in> set (urls (perform isValidUrl e op st))" for p'
  proof (cases "\<forall>c s. op \<noteq> RecordAccess c s")
    case True
    from perform_other_entry [OF True p'] assms show ?thesis
      by (auto simp: clicksConsistent_def list_all_iff)
  next
    case False
    then obtain c s where "op = RecordAccess c s" by blast
    with perform_record_entry [of p' isValidUrl e c s st] p' assms show ?thesis
      by (auto simp: clicksConsistent_def list_all_iff)
  qed
  then show ?thesis by (simp add: clicksConsistent_def list_all_iff)
qed

text \<open>
  C6, on a map with distinct keys: \<open>recordClickAndRedirect\<close> on a code that no stored
  mapping has returns nothing and changes nothing; on a code whose first mapping
  \<open>(k, u)\<close> is expired at the time of the call it returns nothing and leaves the keys,
  the clicks and the counts of all entries as they are; on a code whose first mapping is
  live it returns \<open>originalUrl u\<close> and replaces \<open>u\<close> by \<open>u\<close> with one click appended,
  every other entry staying as it is. After any call of another method, every entry is a
  new mapping without clicks or has the key and the clicks of an entry before the call.
\<close>

theorem C6_recordClickAndRedirect:
  assumes "distinct (map fst (urls st))"
  shows "((\<forall>p \<in> set (urls st). shortCode (snd p) \<noteq> code)
            \<longrightarrow> recordClickAndRedirect e st code src = (None, st))
       \<and> (find (\<lambda>p. shortCode (snd p) = code) (urls st) = Some (k, u) \<and> clock e 0 > expiresAt u
            \<longrightarrow> fst (recordClickAndRedirect e st code src) = None
              \<and> map (\<lambda>p. (fst p, clicks (snd p), totalClicks (snd p)))
                    (urls (snd (recordClickAndRedirect e st code src)))
                = map (\<lambda>p. (fst p, clicks (snd p), totalClicks (snd p))) (urls st))
       \<and> (find (\<lambda>p. shortCode (snd p) = code) (urls st) = Some (k, u) \<and> clock e 0 \<le> expiresAt u
            \<longrightarrow> fst (recordClickAndRedirect e st code src) = Some (originalUrl u)
              \<and> urls (snd (recordClickAndRedirect e st code src))
                = map (\<lambda>p. if fst p = k
                           then (k, u\<lparr>clicks := clicks u @ [newClickData e src],
                                       totalClicks := Suc (length (clicks u))\<rparr>)
                           else p) (urls st))
       \<and> ((\<forall>c s. op \<noteq> RecordAccess c s)
            \<longrightarrow> (\<forall>p' \<in> set (urls (perform isValidUrl e' op st)).
                   clicks (snd p') = []
                   \<or> (\<exists>p \<in> set (urls st). fst p = fst p' \<and> clicks (snd p) = clicks (snd p'))))"
proof -
  have a: "(\<forall>p \<in> set (urls st). shortCode (snd p) \<noteq> code)
            \<longrightarrow> recordClickAndRedirect e st code src = (None, st)"
    by (intro impI recordClickAndRedirect_missing)
  have b: "find (\<lambda>p. shortCode (snd p) = code) (urls st) = Some (k, u) \<and> clock e 0 > expiresAt u
            \<longrightarrow> fst (recordClickAndRedirect e st code src) = None
              \<and> map (\<lambda>p. (fst p, clicks (snd p), totalClicks (snd p)))
                    (urls (snd (recordClickAndRedirect e st code src)))
                = map (\<lambda>p. (fst p, clicks (snd p), totalClicks (snd p))) (urls st)"
  proof (intro impI, elim conjE)
    assume f: "find (\<lambda>p. shortCode (snd p) = code) (urls st) = Some (k, u)"
      and x: "clock e 0 > expiresAt u"
    have m: "(k, u) \<in> set (urls st)" using f by (rule find_code_Some)
    have "urls (snd (recordClickAndRedirect e st code src))
        = map (\<lambda>p. if fst p = k then (k, u\<lparr>isExpired := True\<rparr>) else p) (urls st)"
      by (simp add: recordClickAndRedirect_expired [OF f x] urls_saveToStorage
            Map_set_entry [OF assms m])
    moreover have "map (\<lambda>p. (fst p, clicks (snd p), totalClicks (snd p)))
          (map (\<lambda>p. if fst p = k then (k, u\<lparr>isExpired := True\<rparr>) else p) (urls st))
        = map (\<lambda>p. (fst p, clicks (snd p), totalClicks (snd p))) (urls st)"
      using assms m by (rule map_update_same) simp
    ultimately show "fst (recordClickAndRedirect e st code src) = None
              \<and> map (\<lambda>p. (fst p, clicks (snd p), totalClicks (snd p)))
                    (urls (snd (recordClickAndRedirect e st code src)))
                = map (\<lambda>p. (fst p, clicks (snd p), totalClicks (snd p))) (urls st)"
      by (simp add: recordClickAndRedirect_expired [OF f x])
  qed
  have c: "find (\<lambda>p. shortCode (snd p) = code) (urls st) = Some (k, u) \<and> clock e 0 \<le> expiresAt u
            \<longrightarrow> fst (recordClickAndRedirect e st code src) = Some (originalUrl u)
              \<and> urls (snd (recordClickAndRedirect e st code src))
                = map (\<lambda>p. if fst p = k
                           then (k, u\<lparr>clicks := clicks u @ [newClickData e src],
                                       totalClicks := Suc (length (clicks u))\<rparr>)
                           else p) (urls st)"
  proof (intro impI, elim conjE)
    assume f: "find (\<lambda>p. shortCode (snd p) = code) (urls st) = Some (k, u)"
      and x: "clock e 0 \<le> expiresAt u"
    have m: "(k, u) \<in> set (urls st)" using f by (rule find_code_Some)
    show "fst (recordClickAndRedirect e st code src) = Some (originalUrl u)
              \<and> urls (snd (recordClickAndRedirect e st code src))
                = map (\<lambda>p. if fst p = k
                           then (k, u\<lparr>clicks := clicks u @ [newClickData e src],
                                       totalClicks := Suc (length (clicks u))\<rparr>)
                           else p) (urls st)"
      by (simp add: recordClickAndRedirect_live [OF f x] urls_saveToStorage
            Map_set_entry [OF assms m])
  qed
  have d: "(\<forall>c s. op \<noteq> RecordAccess c s)
            \<longrightarrow> (\<forall>p' \<in> set (urls (perform isValidUrl e' op st)).
                   clicks (snd p') = []
                   \<or> (\<exists>p \<in> set (urls st). fst p = fst p' \<and> clicks (snd p) = clicks (snd p')))"
  proof (intro impI ballI)
    fix p'
    assume "\<forall>c s. op \<noteq> RecordAccess c s" "p' \<in> set (urls (perform isValidUrl e' op st))"
    from perform_other_entry [OF this]
    show "clicks (snd p') = []
        \<or> (\<exists>p \<in> set (urls st). fst p = fst p' \<and> clicks (snd p) = clicks (snd p'))"
      by blast
  qed
  from a b c d show ?thesis by (intro conjI)
qed

theorem C6_recordClickAndRedirect_witness:
  "recordClickAndRedirect (exampleEnv ''c1'' 5 (\<lambda>_. 0))
       (exampleService [(''1'', exampleUrl ''1'' ''promo1'' 0 60000 False)]) ''promo2'' None
     = (None, exampleService [(''1'', exampleUrl ''1'' ''promo1'' 0 60000 False)])
   \<and> fst (recordClickAndRedirect (exampleEnv ''c1'' 60001 (\<lambda>_. 0))
       (exampleService [(''1'', exampleUrl ''1'' ''promo1'' 0 60000 False)]) ''promo1'' None)
     = None
   \<and> map (\<lambda>p. (fst p, clicks (snd p), totalClicks (snd p)))
       (urls (snd (recordClickAndRedirect (exampleEnv ''c1'' 60001 (\<lambda>_. 0))
         (exampleService [(''1'', exampleUrl ''1'' ''promo1'' 0 60000 False)]) ''promo1'' None)))
     = [(''1'', [], 0)]
   \<and> fst (recordClickAndRedirect (exampleEnv ''c1'' 60000 (\<lambda>_. 0))
       (exampleService [(''1'', exampleUrl ''1'' ''promo1'' 0 60000 False)]) ''promo1'' None)
     = Some ''https://example.com/a''
   \<and> map (\<lambda>p. (fst p, map source (clicks (snd p)), totalClicks (snd p)))
       (urls (snd (recordClickAndRedirect (exampleEnv ''c1'' 60000 (\<lambda>_. 0))
         (exampleService [(''1'', exampleUrl ''1'' ''promo1'' 0 60000 False)]) ''promo1'' None)))
     = [(''1'', [''direct''], 1)]
   \<and> list_all (\<lambda>p. clicks (snd p) = [])
       (urls (perform parses (exampleEnv ''x'' 60001 (\<lambda>_. 0)) (Lookup ''promo1'')
         (exampleService [(''1'', exampleUrl ''1'' ''promo1'' 0 60000 False)])))"
proof -
  let ?u = "exampleUrl ''1'' ''promo1'' 0 60000 False"
  let ?st = "exampleService [(''1'', ?u)]"
  let ?e5 = "exampleEnv ''c1'' 5 (\<lambda>_. 0)"
  let ?e0 = "exampleEnv ''c1'' 60000 (\<lambda>_. 0)"
  let ?e1 = "exampleEnv ''c1'' 60001 (\<lambda>_. 0)"
  let ?ex = "exampleEnv ''x'' 60001 (\<lambda>_. 0)"
  have d: "distinct (map fst (urls ?st))" by (simp add: exampleService_def)
  have f: "find (\<lambda>p. shortCode (snd p) = ''promo1'') (urls ?st) = Some (''1'', ?u)"
    by (simp add: exampleService_def exampleUrl_def)
  have n: "\<forall>p \<in> set (urls ?st). shortCode (snd p) \<noteq> ''promo2''"
    by (simp add: exampleService_def exampleUrl_def)
  have live: "clock ?e0 0 \<le> expiresAt ?u" by (simp add: exampleEnv_def exampleUrl_def)
  have dead: "clock ?e1 0 > expiresAt ?u" by (simp add: exampleEnv_def exampleUrl_def)
  have other: "\<forall>c s. Lookup ''promo1'' \<noteq> RecordAccess c s" by simp
  have unclicked: "\<forall>p \<in> set (urls ?st). clicks (snd p) = []"
    by (simp add: exampleService_def exampleUrl_def)
  note t = C6_recordClickAndRedirect [OF d]
  note t_missing = t [THEN conjunct1, THEN mp]
  note t_expired = t [THEN conjunct2, THEN conjunct1, THEN mp]
  note t_live = t [THEN conjunct2, THEN conjunct2, THEN conjunct1, THEN mp]
  note t_other = t [THEN conjunct2, THEN conjunct2, THEN conjunct2, THEN mp, THEN bspec]
  have 1: "recordClickAndRedirect ?e5 ?st ''promo2'' None = (None, ?st)"
    by (rule t_missing [OF n])
  have 23: "fst (recordClickAndRedirect ?e1 ?st ''promo1'' None) = None
      \<and> map (\<lambda>p. (fst p, clicks (snd p), totalClicks (snd p)))
          (urls (snd (recordClickAndRedirect ?e1 ?st ''promo1'' None)))
        = map (\<lambda>p. (fst p, clicks (snd p), totalClicks (snd p))) (urls ?st)"
    by (rule t_expired [OF conjI [OF f dead]])
  note 2 = 23 [THEN conjunct1] and 3 = 23 [THEN conjunct2]
  have 45: "fst (recordClickAndRedirect ?e0 ?st ''promo1'' None) = Some (originalUrl ?u)
      \<and> urls (snd (recordClickAndRedirect ?e0 ?st ''promo1'' None))
        = map (\<lambda>p. if fst p = ''1''
                   then (''1'', ?u\<lparr>clicks := clicks ?u @ [newClickData ?e0 None],
                                    totalClicks := Suc (length (clicks ?u))\<rparr>)
                   else p) (urls ?st)"
    by (rule t_live [OF conjI [OF f live]])
  note 4 = 45 [THEN conjunct1] and 5 = 45 [THEN conjunct2]
  have 6: "list_all (\<lambda>p. clicks (snd p) = [])
      (urls (perform parses ?ex (Lookup ''promo1'') ?st))"
    unfolding list_all_iff
  proof
    fix p'
    assume "p' \<in> set (urls (perform parses ?ex (Lookup ''promo1'') ?st))"
    from t_other [OF other this]
    consider "clicks (snd p') = []"
      | p where "p \<in> set (urls ?st)" "clicks (snd p) = clicks (snd p')"
      by blast
    then show "clicks (snd p') = []"
    proof cases
      case 1
      then show ?thesis .
    next
      case 2
      with unclicked show ?thesis by (metis (no_types))
    qed
  qed
  have v3: "map (\<lambda>p. (fst p, clicks (snd p), totalClicks (snd p))) (urls ?st) = [(''1'', [], 0)]"
    by (simp add: exampleService_def exampleUrl_def)
  have v4: "originalUrl ?u = ''https://example.com/a''" by (simp add: exampleUrl_def)
  have v5: "map (\<lambda>p. (fst p, map source (clicks (snd p)), totalClicks (snd p)))
        (map (\<lambda>p. if fst p = ''1''
                   then (''1'', ?u\<lparr>clicks := clicks ?u @ [newClickData ?e0 None],
                                    totalClicks := Suc (length (clicks ?u))\<rparr>)
                   else p) (urls ?st)) = [(''1'', [''direct''], 1)]"
    by (simp add: exampleService_def exampleUrl_def newClickData_def)
  from 1 2 3 [unfolded v3] 4 [unfolded v4] 5 6 v5 show ?thesis
    by (simp only:)
qed

section \<open>Runs\<close>

lemma find_map_code:
  assumes "\<forall>p \<in> set m. shortCode (snd (f p)) = shortCode (snd p)"
  shows "find (\<lambda>p. shortCode (snd p) = code) (map f m)
    = map_option f (find (\<lambda>p. shortCode (snd p) = code) m)"
  using assms by (induction m) auto

lemma find_filter_keep:
  assumes "find P m = Some x" and "Q x"
  shows "find P (filter Q m) = Some x"
  using assms by (induction m) (auto split: if_splits)

lemma find_append_left:
  assumes "find P m = Some x"
  shows "find P (m @ ys) = Some x"
  using assms by (induction m) (auto split: if_splits)

lemma keys_map_update:
  "map fst (map (\<lambda>p. if fst p = k then (k, v) else p) m) = map fst m"
  by (induction m) auto

lemma entry_unique:
  assumes "distinct (map fst m)" and "(k, u) \<in> set m" and "(k, w) \<in> set m"
  shows "u = w"
  using assms by (rule eq_key_imp_eq_value)

lemma find_after_update:
  assumes d: "distinct (map fst m)"
    and f: "find (\<lambda>p. shortCode (snd p) = code) m = Some (k, u)"
    and m1: "(k1, u1) \<in> set m"
    and c: "shortCode v = shortCode u1"
  shows "find (\<lambda>p. shortCode (snd p) = code) (map (\<lambda>p. if fst p = k1 then (k1, v) else p) m)
    = Some (if k = k1 then (k1, v) else (k, u))"
proof -
  have "shortCode (snd (if fst p = k1 then (k1, v) else p)) = shortCode (snd p)"
    if "p \<in> set m" for p
  proof (cases "fst p = k1")
    case True
    then have "(k1, snd p) \<in> set m" using that by (metis prod.collapse)
    with d m1 have "snd p = u1" by (metis entry_unique)
    with True c show ?thesis by simp
  next
    case False
    then show ?thesis by simp
  qed
  then have "find (\<lambda>p. shortCode (snd p) = code) (map (\<lambda>p. if fst p = k1 then (k1, v) else p) m)
      = map_option (\<lambda>p. if fst p = k1 then (k1, v) else p)
          (find (\<lambda>p. shortCode (snd p) = code) m)"
    by (intro find_map_code) blast
  then show ?thesis by (simp add: f)
qed

lemma keys_updateExpired: "map fst (updateExpired clk i m) = map fst m"
  by (induction clk i m rule: updateExpired.induct) auto

lemma find_updateExpired:
  assumes "find (\<lambda>p. shortCode (snd p) = code) m = Some (k, u)"
  shows "\<exists>u'. find (\<lambda>p. shortCode (snd p) = code) (updateExpired clk i m) = Some (k, u')
           \<and> clicks u' = clicks u \<and> totalClicks u' = totalClicks u"
  using assms
  by (induction clk i m rule: updateExpired.induct) (auto split: if_splits)

lemma map_of_updateExpired:
  assumes "map_of (updateExpired clk i m) k = Some u'"
  shows "\<exists>u. map_of m k = Some u \<and> clicks u' = clicks u"
  using assms
  by (induction clk i m rule: updateExpired.induct) (auto split: if_splits)

lemma map_of_entry:
  assumes "distinct (map fst m)" and "(k, u) \<in> set m"
  shows "map_of m k = Some u"
  using assms by simp

text \<open>
  One call that keeps the entry \<open>k\<close>, on a map with distinct keys where \<open>(k, u)\<close> is the
  first entry with the code: afterwards the keys are distinct, the first entry with the
  code is again under \<open>k\<close>, and its clicks are those of \<open>u\<close> followed by what the call
  recorded for the code.
\<close>

lemma perform_keeps:
  assumes d: "distinct (map fst (urls st))"
    and f: "find (\<lambda>p. shortCode (snd p) = code) (urls st) = Some (k, u)"
    and keep: "keepsEntry e op st k"
  shows "\<exists>u'. distinct (map fst (urls (perform isValidUrl e op st)))
           \<and> find (\<lambda>p. shortCode (snd p) = code) (urls (perform isValidUrl e op st)) = Some (k, u')
           \<and> clicks u' = clicks u @ recordedBy e op st code
           \<and> (totalClicks u = length (clicks u) \<longrightarrow> totalClicks u' = length (clicks u'))"
proof -
  have mem: "(k, u) \<in> set (urls st)" and code: "shortCode u = code"
    using f by (rule find_code_Some)+
  have same: ?thesis
    if "urls (perform isValidUrl e op st) = urls st" "recordedBy e op st code = []"
    using that d f by simp
  show ?thesis
  proof (cases op)
    case (Create request)
    show ?thesis
    proof (cases "createShortenedUrl isValidUrl e st request")
      case (Inl err)
      with Create show ?thesis
        by (intro same) (simp_all add: perform_def recordedBy_def)
    next
      case (Inr r)
      obtain v st' where r: "r = (v, st')" by (cases r)
      note c = createShortenedUrl_Inr [OF Inr [unfolded r]]
      from keep Create have fresh: "freshId e \<notin> fst ` set (urls st)"
        by (simp add: keepsEntry_def Map_has_def)
      have "urls st' = Map_set (freshId e) v (urls st)"
        by (subst c(5)) (simp add: urls_saveToStorage)
      with fresh have u': "urls (perform isValidUrl e op st) = urls st @ [(freshId e, v)]"
        using Create Inr r by (simp add: perform_def Map_set_fresh)
      have "distinct (map fst (urls (perform isValidUrl e op st)))"
        using d fresh by (simp add: u')
      moreover have "find (\<lambda>p. shortCode (snd p) = code) (urls (perform isValidUrl e op st))
          = Some (k, u)"
        unfolding u' using f by (rule find_append_left)
      moreover have "recordedBy e op st code = []"
        using Create by (simp add: recordedBy_def)
      ultimately show ?thesis by simp
    qed
  next
    case (Lookup c)
    have rb: "recordedBy e op st code = []" using Lookup by (simp add: recordedBy_def)
    show ?thesis
    proof (cases "find (\<lambda>p. shortCode (snd p) = c) (urls st)")
      case None
      then have "getUrlByShortCode e st c = (None, st)"
        by (simp add: getUrlByShortCode_def)
      with Lookup rb show ?thesis by (intro same) (simp_all add: perform_def)
    next
      case (Some q)
      obtain k1 u1 where q: "q = (k1, u1)" by (cases q)
      note f1 = Some [unfolded q]
      have m1: "(k1, u1) \<in> set (urls st)" using f1 by (rule find_code_Some)
      show ?thesis
      proof (cases "clock e 0 > expiresAt u1")
        case True
        let ?v = "u1\<lparr>isExpired := True\<rparr>"
        have u': "urls (perform isValidUrl e op st)
            = map (\<lambda>p. if fst p = k1 then (k1, ?v) else p) (urls st)"
          using Lookup
          by (simp add: perform_def getUrlByShortCode_expired [OF f1 True] urls_saveToStorage
                Map_set_entry [OF d m1])
        have fnd: "find (\<lambda>p. shortCode (snd p) = code) (urls (perform isValidUrl e op st))
            = Some (if k = k1 then (k1, ?v) else (k, u))"
          unfolding u' using d f m1 by (rule find_after_update) simp
        have dk: "distinct (map fst (urls (perform isValidUrl e op st)))"
          using d by (simp only: u' keys_map_update)
        show ?thesis
        proof (cases "k = k1")
          case True
          with d mem m1 have "u1 = u" by (metis entry_unique)
          with True fnd dk rb show ?thesis by simp
        next
          case False
          with fnd dk rb show ?thesis by simp
        qed
      next
        case False
        then have "getUrlByShortCode e st c = (Some (k1, u1), st)"
          using f1 by (simp add: getUrlByShortCode_live)
        with Lookup rb show ?thesis by (intro same) (simp_all add: perform_def)
      qed
    qed
  next
    case (RecordAccess c src)
    show ?thesis
    proof (cases "find (\<lambda>p. shortCode (snd p) = c) (urls st)")
      case None
      then have "\<forall>p \<in> set (urls st). shortCode (snd p) \<noteq> c"
        by (simp add: find_code_None)
      then have "recordClickAndRedirect e st c src = (None, st)"
        by (rule recordClickAndRedirect_missing)
      with RecordAccess show ?thesis
        by (intro same) (simp_all add: perform_def recordedBy_def)
    next
      case (Some q)
      obtain k1 u1 where q: "q = (k1, u1)" by (cases q)
      note f1 = Some [unfolded q]
      have m1: "(k1, u1) \<in> set (urls st)" and c1: "shortCode u1 = c"
        using f1 by (rule find_code_Some)+
      show ?thesis
      proof (cases "clock e 0 > expiresAt u1")
        case True
        let ?v = "u1\<lparr>isExpired := True\<rparr>"
        note r = recordClickAndRedirect_expired [OF f1 True, of src]
        have rb: "recordedBy e op st code = []"
          using RecordAccess by (simp add: recordedBy_def r)
        have u': "urls (perform isValidUrl e op st)
            = map (\<lambda>p. if fst p = k1 then (k1, ?v) else p) (urls st)"
          using RecordAccess
          by (simp add: perform_def r urls_saveToStorage Map_set_entry [OF d m1])
        have fnd: "find (\<lambda>p. shortCode (snd p) = code) (urls (perform isValidUrl e op st))
            = Some (if k = k1 then (k1, ?v) else (k, u))"
          unfolding u' using d f m1 by (rule find_after_update) simp
        have dk: "distinct (map fst (urls (perform isValidUrl e op st)))"
          using d by (simp only: u' keys_map_update)
        show ?thesis
        proof (cases "k = k1")
          case True
          with d mem m1 have "u1 = u" by (metis entry_unique)
          with True fnd dk rb show ?thesis by simp
        next
          case False
          with fnd dk rb show ?thesis by simp
        qed
      next
        case False
        then have live: "clock e 0 \<le> expiresAt u1" by simp
        let ?v = "u1\<lparr>clicks := clicks u1 @ [newClickData e src],
                      totalClicks := Suc (length (clicks u1))\<rparr>"
        note r = recordClickAndRedirect_live [OF f1 live, of src]
        have rb: "recordedBy e op st code = (if c = code then [newClickData e src] else [])"
          using RecordAccess by (simp add: recordedBy_def r)
        have u': "urls (perform isValidUrl e op st)
            = map (\<lambda>p. if fst p = k1 then (k1, ?v) else p) (urls st)"
          using RecordAccess
          by (simp add: perform_def r urls_saveToStorage Map_set_entry [OF d m1])
        have fnd: "find (\<lambda>p. shortCode (snd p) = code) (urls (perform isValidUrl e op st))
            = Some (if k = k1 then (k1, ?v) else (k, u))"
          unfolding u' using d f m1 by (rule find_after_update) simp
        have dk: "distinct (map fst (urls (perform isValidUrl e op st)))"
          using d by (simp only: u' keys_map_update)
        show ?thesis
        proof (cases "c = code")
          case True
          with f f1 have "k1 = k" "u1 = u" by simp_all
          with True fnd dk rb show ?thesis by simp
        next
          case False
          have "k \<noteq> k1"
          proof
            assume "k = k1"
            with d mem m1 have "u1 = u" by (metis entry_unique)
            with c1 code False show False by simp
          qed
          with False fnd dk rb show ?thesis by simp
        qed
      qed
    qed
  next
    case ListAll
    have u': "urls (perform isValidUrl e op st) = updateExpired (clock e) 0 (urls st)"
      using ListAll by (simp add: perform_def getAllUrls_def Let_def urls_saveToStorage)
    have rb: "recordedBy e op st code = []" using ListAll by (simp add: recordedBy_def)
    from find_updateExpired [OF f, of "clock e" 0] obtain w where
      "find (\<lambda>p. shortCode (snd p) = code) (updateExpired (clock e) 0 (urls st)) = Some (k, w)"
      "clicks w = clicks u" "totalClicks w = totalClicks u"
      by blast
    moreover have "distinct (map fst (updateExpired (clock e) 0 (urls st)))"
      using d by (simp only: keys_updateExpired)
    ultimately show ?thesis by (simp add: u' rb)
  next
    case (Delete ident)
    from keep Delete have ne: "ident \<noteq> k" by (simp add: keepsEntry_def)
    have rb: "recordedBy e op st code = []" using Delete by (simp add: recordedBy_def)
    have u': "urls (perform isValidUrl e op st) = filter (\<lambda>p. fst p \<noteq> ident) (urls st)"
    proof (cases "Map_has ident (urls st)")
      case True
      with Delete show ?thesis
        by (simp add: perform_def deleteUrl_def urls_saveToStorage Map_delete_def)
    next
      case False
      then have "filter (\<lambda>p. fst p \<noteq> ident) (urls st) = urls st"
        by (auto simp: Map_has_def filter_id_conv)
      with False Delete show ?thesis by (simp add: perform_def deleteUrl_def)
    qed
    have "find (\<lambda>p. shortCode (snd p) = code) (filter (\<lambda>p. fst p \<noteq> ident) (urls st))
        = Some (k, u)"
      using f by (rule find_filter_keep) (use ne in simp)
    moreover have "distinct (map fst (filter (\<lambda>p. fst p \<noteq> ident) (urls st)))"
      using d by (rule distinct_map_filter)
    ultimately show ?thesis by (simp add: u' rb)
  next
    case Clear
    with keep show ?thesis by (simp add: keepsEntry_def)
  qed
qed

lemma run_keeps:
  assumes "distinct (map fst (urls st))"
    and "find (\<lambda>p. shortCode (snd p) = code) (urls st) = Some (k, u)"
    and "totalClicks u = length (clicks u)"
    and "keeps isValidUrl st k cs"
  shows "\<exists>u'. find (\<lambda>p. shortCode (snd p) = code) (urls (run isValidUrl st cs)) = Some (k, u')
           \<and> clicks u' = clicks u @ recorded isValidUrl st code cs
           \<and> totalClicks u' = length (clicks u) + length (recorded isValidUrl st code cs)"
  using assms
proof (induction cs arbitrary: st u)
  case Nil
  then show ?case by simp
next
  case (Cons c cs)
  let ?st1 = "perform isValidUrl (fst c) (snd c) st"
  from Cons.prems(4) have k1: "keepsEntry (fst c) (snd c) st k"
    and k2: "keeps isValidUrl ?st1 k cs" by simp_all
  from perform_keeps [OF Cons.prems(1,2) k1, of isValidUrl] Cons.prems(3)
  obtain u1 where d1: "distinct (map fst (urls ?st1))"
    and f1: "find (\<lambda>p. shortCode (snd p) = code) (urls ?st1) = Some (k, u1)"
    and c1: "clicks u1 = clicks u @ recordedBy (fst c) (snd c) st code"
    and t1: "totalClicks u1 = length (clicks u1)"
    by blast
  from Cons.IH [OF d1 f1 t1 k2] obtain u' where
    "find (\<lambda>p. shortCode (snd p) = code) (urls (run isValidUrl ?st1 cs)) = Some (k, u')"
    "clicks u' = clicks u1 @ recorded isValidUrl ?st1 code cs"
    "totalClicks u' = length (clicks u1) + length (recorded isValidUrl ?st1 code cs)"
    by blast
  with c1 show ?case by simp
qed

text \<open>
  One call, any stored mapping: if its key is still a key after the call, and the call is
  not a create that reuses this key as its id, the clicks are as before, or are those
  before followed by the click of this \<open>recordClickAndRedirect\<close>.
\<close>

lemma perform_append_only:
  assumes d: "distinct (map fst (urls st))"
    and b: "map_of (urls st) k = Some u"
    and a: "map_of (urls (perform isValidUrl e op st)) k = Some u'"
    and id: "\<forall>request. op = Create request \<longrightarrow> freshId e \<noteq> k"
  shows "clicks u' = clicks u
       \<or> (\<exists>code src. op = RecordAccess code src \<and> clicks u' = clicks u @ [newClickData e src])"
proof (cases op)
  case (Create request)
  show ?thesis
  proof (cases "createShortenedUrl isValidUrl e st request")
    case (Inl err)
    with Create a b show ?thesis by (simp add: perform_def)
  next
    case (Inr r)
    obtain v st' where r: "r = (v, st')" by (cases r)
    note c = createShortenedUrl_Inr [OF Inr [unfolded r]]
    have "urls st' = Map_set (freshId e) v (urls st)"
      by (subst c(5)) (simp add: urls_saveToStorage)
    with Create Inr r a id have "map_of (urls st) k = Some u'"
      by (simp add: perform_def map_of_Map_set)
    with b show ?thesis by simp
  qed
next
  case (Lookup c)
  show ?thesis
  proof (cases "find (\<lambda>p. shortCode (snd p) = c) (urls st)")
    case None
    then have "getUrlByShortCode e st c = (None, st)"
      by (simp add: getUrlByShortCode_def)
    with Lookup a b show ?thesis by (simp add: perform_def)
  next
    case (Some q)
    obtain k1 u1 where q: "q = (k1, u1)" by (cases q)
    note f1 = Some [unfolded q]
    have m1: "map_of (urls st) k1 = Some u1"
      using d find_code_Some(1) [OF f1] by (rule map_of_entry)
    show ?thesis
    proof (cases "clock e 0 > expiresAt u1")
      case True
      with Lookup a getUrlByShortCode_expired [OF f1 True]
      have "((map_of (urls st))(k1 \<mapsto> u1\<lparr>isExpired := True\<rparr>)) k = Some u'"
        by (simp add: perform_def urls_saveToStorage map_of_Map_set)
      with b m1 show ?thesis by (auto split: if_splits)
    next
      case False
      then have "getUrlByShortCode e st c = (Some (k1, u1), st)"
        using f1 by (simp add: getUrlByShortCode_live)
      with Lookup a b show ?thesis by (simp add: perform_def)
    qed
  qed
next
  case (RecordAccess c src)
  show ?thesis
  proof (cases "find (\<lambda>p. shortCode (snd p) = c) (urls st)")
    case None
    then have "\<forall>p \<in> set (urls st). shortCode (snd p) \<noteq> c"
      by (simp add: find_code_None)
    from recordClickAndRedirect_missing [OF this] RecordAccess a b show ?thesis
      by (simp add: perform_def)
  next
    case (Some q)
    obtain k1 u1 where q: "q = (k1, u1)" by (cases q)
    note f1 = Some [unfolded q]
    have m1: "map_of (urls st) k1 = Some u1"
      using d find_code_Some(1) [OF f1] by (rule map_of_entry)
    show ?thesis
    proof (cases "clock e 0 > expiresAt u1")
      case True
      with RecordAccess a recordClickAndRedirect_expired [OF f1 True, of src]
      have "((map_of (urls st))(k1 \<mapsto> u1\<lparr>isExpired := True\<rparr>)) k = Some u'"
        by (simp add: perform_def urls_saveToStorage map_of_Map_set)
      with b m1 show ?thesis by (auto split: if_splits)
    next
      case False
      then have live: "clock e 0 \<le> expiresAt u1" by simp
      with RecordAccess a recordClickAndRedirect_live [OF f1 live, of src]
      have "((map_of (urls st))(k1 \<mapsto> u1\<lparr>clicks := clicks u1 @ [newClickData e src],
              totalClicks := Suc (length (clicks u1))\<rparr>)) k = Some u'"
        by (simp add: perform_def urls_saveToStorage map_of_Map_set)
      with b m1 RecordAccess show ?thesis by (auto split: if_splits)
    qed
  qed
next
  case ListAll
  with a have "map_of (updateExpired (clock e) 0 (urls st)) k = Some u'"
    by (simp add: perform_def getAllUrls_def Let_def urls_saveToStorage)
  from map_of_updateExpired [OF this] b show ?thesis by auto
next
  case (Delete ident)
  with a have "map_of (urls st) k = Some u'"
    by (auto simp: perform_def deleteUrl_def urls_saveToStorage map_of_Map_delete
          split: if_splits)
  with b show ?thesis by simp
next
  case Clear
  with a show ?thesis by (simp add: perform_def clearAllData_def)
qed

text \<open>
  C7: \<open>totalClicks\<close> is the length of \<open>clicks\<close> for every mapping of the empty service,
  a created mapping has no clicks and the count 0, and every call of a method keeps
  \<open>totalClicks = length clicks\<close> for all stored mappings. Successive calls of
  \<open>recordClickAndRedirect\<close> on a code whose first mapping \<open>(k, u)\<close> is live at each call
  all return \<open>originalUrl u\<close>, and leave under \<open>k\<close> the mapping \<open>u\<close> with one click for
  each call appended to its clicks in call order and \<open>totalClicks\<close> raised by the number
  of calls, all other entries staying as they are.

  The clicks are append-only under every method, on a map with distinct keys: a mapping
  that is still stored after a call has the clicks it had, followed by one new click if
  the call was a \<open>recordClickAndRedirect\<close> (a create that reuses the key as its id
  replaces the mapping and is excepted). A create changes no mapping under another key,
  and with a fresh id it only adds its mapping at the end. Over any run of calls that
  keeps the mapping \<open>(k, u)\<close>, the first with its code and with
  \<open>totalClicks u = length (clicks u)\<close>, in the map, whatever other calls come in
  between: after the run the clicks are those of \<open>u\<close> followed by the clicks of the
  successful \<open>recordClickAndRedirect\<close> calls on the code in call order, and \<open>totalClicks\<close>
  is raised by their number.
\<close>

theorem C7_totalClicks:
  "clicksConsistent init
   \<and> (createShortenedUrl isValidUrl e st request = Inr (v, st')
        \<longrightarrow> clicks v = [] \<and> totalClicks v = 0)
   \<and> (clicksConsistent st \<longrightarrow> clicksConsistent (perform isValidUrl e op st))
   \<and> (distinct (map fst (urls st))
        \<and> find (\<lambda>p. shortCode (snd p) = code) (urls st) = Some (k, u)
        \<and> totalClicks u = length (clicks u)
        \<and> (\<forall>c \<in> set cs. clock (fst c) 0 \<le> expiresAt u)
      \<longrightarrow> fst (recordMany st code cs) = map (\<lambda>c. Some (originalUrl u)) cs
        \<and> urls (snd (recordMany st code cs))
           = map (\<lambda>p. if fst p = k
                      then (k, u\<lparr>clicks := clicks u
                                     @ map (\<lambda>c. newClickData (fst c) (snd c)) cs,
                                  totalClicks := length (clicks u) + length cs\<rparr>)
                      else p) (urls st))
   \<and> (distinct (map fst (urls st))
        \<and> map_of (urls st) k' = Some w
        \<and> map_of (urls (perform isValidUrl e op st)) k' = Some w'
        \<and> (\<forall>r. op = Create r \<longrightarrow> freshId e \<noteq> k')
      \<longrightarrow> clicks w' = clicks w
        \<or> (\<exists>c src. op = RecordAccess c src \<and> clicks w' = clicks w @ [newClickData e src]))
   \<and> (createShortenedUrl isValidUrl e st request = Inr (v, st')
      \<longrightarrow> (\<forall>j. j \<noteq> freshId e \<longrightarrow> map_of (urls st') j = map_of (urls st) j)
        \<and> (\<not> Map_has (freshId e) (urls st) \<longrightarrow> urls st' = urls st @ [(freshId e, v)]))
   \<and> (distinct (map fst (urls st))
        \<and> find (\<lambda>p. shortCode (snd p) = code) (urls st) = Some (k, u)
        \<and> totalClicks u = length (clicks u)
        \<and> keeps isValidUrl st k calls
      \<longrightarrow> (\<exists>u'. find (\<lambda>p. shortCode (snd p) = code) (urls (run isValidUrl st calls))
                  = Some (k, u')
             \<and> clicks u' = clicks u @ recorded isValidUrl st code calls
             \<and> totalClicks u' = length (clicks u) + length (recorded isValidUrl st code calls)))"
proof -
  have a: "clicksConsistent init"
    by (simp add: clicksConsistent_def init_def)
  have b: "createShortenedUrl isValidUrl e st request = Inr (v, st')
        \<longrightarrow> clicks v = [] \<and> totalClicks v = 0"
  proof
    assume r: "createShortenedUrl isValidUrl e st request = Inr (v, st')"
    show "clicks v = [] \<and> totalClicks v = 0"
      by (subst createShortenedUrl_Inr(4) [OF r], subst createShortenedUrl_Inr(4) [OF r]) simp
  qed
  have c: "clicksConsistent st \<longrightarrow> clicksConsistent (perform isValidUrl e op st)"
    by (intro impI clicksConsistent_perform)
  have d: "distinct (map fst (urls st))
        \<and> find (\<lambda>p. shortCode (snd p) = code) (urls st) = Some (k, u)
        \<and> totalClicks u = length (clicks u)
        \<and> (\<forall>c \<in> set cs. clock (fst c) 0 \<le> expiresAt u)
      \<longrightarrow> fst (recordMany st code cs) = map (\<lambda>c. Some (originalUrl u)) cs
        \<and> urls (snd (recordMany st code cs))
           = map (\<lambda>p. if fst p = k
                      then (k, u\<lparr>clicks := clicks u
                                     @ map (\<lambda>c. newClickData (fst c) (snd c)) cs,
                                  totalClicks := length (clicks u) + length cs\<rparr>)
                      else p) (urls st)"
    by (intro impI, elim conjE, rule recordMany_live)
  have f: "distinct (map fst (urls st))
        \<and> map_of (urls st) k' = Some w
        \<and> map_of (urls (perform isValidUrl e op st)) k' = Some w'
        \<and> (\<forall>r. op = Create r \<longrightarrow> freshId e \<noteq> k')
      \<longrightarrow> clicks w' = clicks w
        \<or> (\<exists>c src. op = RecordAccess c src \<and> clicks w' = clicks w @ [newClickData e src])"
    by (intro impI, elim conjE, rule perform_append_only)
  have g: "createShortenedUrl isValidUrl e st request = Inr (v, st')
      \<longrightarrow> (\<forall>j. j \<noteq> freshId e \<longrightarrow> map_of (urls st') j = map_of (urls st) j)
        \<and> (\<not> Map_has (freshId e) (urls st) \<longrightarrow> urls st' = urls st @ [(freshId e, v)])"
  proof
    assume r: "createShortenedUrl isValidUrl e st request = Inr (v, st')"
    have u': "urls st' = Map_set (freshId e) v (urls st)"
      by (subst createShortenedUrl_Inr(5) [OF r]) (simp add: urls_saveToStorage)
    show "(\<forall>j. j \<noteq> freshId e \<longrightarrow> map_of (urls st') j = map_of (urls st) j)
        \<and> (\<not> Map_has (freshId e) (urls st) \<longrightarrow> urls st' = urls st @ [(freshId e, v)])"
      by (simp add: u' map_of_Map_set Map_has_def Map_set_fresh)
  qed
  have h: "distinct (map fst (urls st))
        \<and> find (\<lambda>p. shortCode (snd p) = code) (urls st) = Some (k, u)
        \<and> totalClicks u = length (clicks u)
        \<and> keeps isValidUrl st k calls
      \<longrightarrow> (\<exists>u'. find (\<lambda>p. shortCode (snd p) = code) (urls (run isValidUrl st calls))
                  = Some (k, u')
             \<and> clicks u' = clicks u @ recorded isValidUrl st code calls
             \<and> totalClicks u' = length (clicks u) + length (recorded isValidUrl st code calls))"
    by (intro impI, elim conjE, rule run_keeps)
  from a b c d f g h show ?thesis by (intro conjI)
qed

theorem C7_totalClicks_witness:
  "clicksConsistent (perform parses (exampleEnv ''c1'' 5 (\<lambda>_. 0)) (RecordAccess ''promo1'' None)
     (exampleService [(''1'', exampleUrl ''1'' ''promo1'' 0 60000 False)]))
   \<and> fst (recordMany (exampleService [(''1'', exampleUrl ''1'' ''promo1'' 0 60000 False)])
       ''promo1''
       [(exampleEnv ''c1'' 10 (\<lambda>_. 0), None), (exampleEnv ''c2'' 20 (\<lambda>_. 0), Some ''mail''),
        (exampleEnv ''c3'' 60000 (\<lambda>_. 0), None)])
     = [Some ''https://example.com/a'', Some ''https://example.com/a'',
        Some ''https://example.com/a'']
   \<and> map (\<lambda>p. (fst p, totalClicks (snd p), map timestamp (clicks (snd p)),
               map source (clicks (snd p))))
       (urls (snd (recordMany
         (exampleService [(''1'', exampleUrl ''1'' ''promo1'' 0 60000 False)]) ''promo1''
         [(exampleEnv ''c1'' 10 (\<lambda>_. 0), None), (exampleEnv ''c2'' 20 (\<lambda>_. 0), Some ''mail''),
          (exampleEnv ''c3'' 60000 (\<lambda>_. 0), None)])))
     = [(''1'', 3, [10, 20, 60000], [''direct'', ''mail'', ''direct''])]
   \<and> (\<exists>u'. find (\<lambda>p. shortCode (snd p) = ''promo1'')
         (urls (run parses (exampleService [(''1'', exampleUrl ''1'' ''promo1'' 0 60000 False)])
            [(exampleEnv ''c1'' 10 (\<lambda>_. 0), RecordAccess ''promo1'' None),
             (exampleEnv ''2'' 20 (\<lambda>_. 0), Create (exampleRequest None (Some ''promo2''))),
             (exampleEnv ''c2'' 30 (\<lambda>_. 0), RecordAccess ''promo1'' None)]))
         = Some (''1'', u')
       \<and> totalClicks u' = 2 \<and> map timestamp (clicks u') = [10, 30])"
proof -
  let ?u = "exampleUrl ''1'' ''promo1'' 0 60000 False"
  let ?st = "exampleService [(''1'', ?u)]"
  let ?cs = "[(exampleEnv ''c1'' 10 (\<lambda>_. 0), None), (exampleEnv ''c2'' 20 (\<lambda>_. 0), Some ''mail''),
        (exampleEnv ''c3'' 60000 (\<lambda>_. 0), None)]"
  let ?calls = "[(exampleEnv ''c1'' 10 (\<lambda>_. 0), RecordAccess ''promo1'' None),
             (exampleEnv ''2'' 20 (\<lambda>_. 0), Create (exampleRequest None (Some ''promo2''))),
             (exampleEnv ''c2'' 30 (\<lambda>_. 0), RecordAccess ''promo1'' None)]"
  have d: "distinct (map fst (urls ?st))" by (simp add: exampleService_def)
  have f: "find (\<lambda>p. shortCode (snd p) = ''promo1'') (urls ?st) = Some (''1'', ?u)"
    by (simp add: exampleService_def exampleUrl_def)
  have tc: "totalClicks ?u = length (clicks ?u)" by (simp add: exampleUrl_def)
  have live: "\<forall>c \<in> set ?cs. clock (fst c) 0 \<le> expiresAt ?u"
    by (simp add: exampleEnv_def exampleUrl_def)
  have inv: "clicksConsistent ?st"
    by (simp add: clicksConsistent_def exampleService_def exampleUrl_def)
  have kp: "keeps parses ?st ''1'' ?calls" by code_simp
  have rc: "map timestamp (recorded parses ?st ''promo1'' ?calls) = [10, 30]" by code_simp
  note t = C7_totalClicks
  note t_inv = t [THEN conjunct2, THEN conjunct2, THEN conjunct1, THEN mp]
  note t_many = t [THEN conjunct2, THEN conjunct2, THEN conjunct2, THEN conjunct1, THEN mp]
  note t_run = t [THEN conjunct2, THEN conjunct2, THEN conjunct2, THEN conjunct2,
      THEN conjunct2, THEN conjunct2, THEN mp]
  have 1: "clicksConsistent (perform parses (exampleEnv ''c1'' 5 (\<lambda>_. 0))
      (RecordAccess ''promo1'' None) ?st)"
    by (rule t_inv [OF inv])
  have 23: "fst (recordMany ?st ''promo1'' ?cs) = map (\<lambda>c. Some (originalUrl ?u)) ?cs
      \<and> urls (snd (recordMany ?st ''promo1'' ?cs))
         = map (\<lambda>p. if fst p = ''1''
                    then (''1'', ?u\<lparr>clicks := clicks ?u
                                       @ map (\<lambda>c. newClickData (fst c) (snd c)) ?cs,
                                     totalClicks := length (clicks ?u) + length ?cs\<rparr>)
                    else p) (urls ?st)"
    by (rule t_many [OF conjI [OF d conjI [OF f conjI [OF tc live]]]])
  have 2: "fst (recordMany ?st ''promo1'' ?cs)
      = [Some ''https://example.com/a'', Some ''https://example.com/a'',
         Some ''https://example.com/a'']"
    by (subst 23 [THEN conjunct1]) (simp add: exampleUrl_def)
  have 3: "map (\<lambda>p. (fst p, totalClicks (snd p), map timestamp (clicks (snd p)),
               map source (clicks (snd p)))) (urls (snd (recordMany ?st ''promo1'' ?cs)))
      = [(''1'', 3, [10, 20, 60000], [''direct'', ''mail'', ''direct''])]"
    by (subst 23 [THEN conjunct2])
       (simp add: exampleService_def exampleUrl_def newClickData_def exampleEnv_def)
  have "\<exists>u'. find (\<lambda>p. shortCode (snd p) = ''promo1'') (urls (run parses ?st ?calls))
        = Some (''1'', u')
      \<and> clicks u' = clicks ?u @ recorded parses ?st ''promo1'' ?calls
      \<and> totalClicks u' = length (clicks ?u) + length (recorded parses ?st ''promo1'' ?calls)"
    by (rule t_run [OF conjI [OF d conjI [OF f conjI [OF tc kp]]]])
  then obtain u' where
    r1: "find (\<lambda>p. shortCode (snd p) = ''promo1'') (urls (run parses ?st ?calls))
        = Some (''1'', u')"
    and r2: "clicks u' = clicks ?u @ recorded parses ?st ''promo1'' ?calls"
    and r3: "totalClicks u' = length (clicks ?u) + length (recorded parses ?st ''promo1'' ?calls)"
    by (elim exE conjE)
  have e: "clicks ?u = []" by (simp add: exampleUrl_def)
  have r4: "map timestamp (clicks u') = [10, 30]"
    by (simp only: r2 e append_Nil rc)
  have "length (map timestamp (recorded parses ?st ''promo1'' ?calls)) = length [10, 30 :: int]"
    by (simp only: rc)
  then have ln: "length (recorded parses ?st ''promo1'' ?calls) = 2"
    by (simp only: length_map list.size)
  have r5: "totalClicks u' = 2"
    by (simp only: r3 e ln list.size)
  have 4: "\<exists>u'. find (\<lambda>p. shortCode (snd p) = ''promo1'')
        (urls (run parses ?st ?calls)) = Some (''1'', u')
      \<and> totalClicks u' = 2 \<and> map timestamp (clicks u') = [10, 30]"
    by (rule exI [of _ u']) (intro conjI r1 r5 r4)
  from 1 2 3 4 show ?thesis by (intro conjI)
qed

end
